theory Spec2Isabelle
  imports Main
begin

section \<open>Python values\<close>

text \<open>
  \<^verbatim>\<open>asyncapi/docs.py\<close> compiles a \<^verbatim>\<open>Specification\<close> (a tree of dataclasses,
  dicts, lists, enumerants and scalars) into a JSON-shaped tree of dicts, lists and
  scalars. Both trees are Python objects, so one datatype serves for both.

  \<^item> \<open>PData fs\<close> is an object for which \<^verbatim>\<open>dataclasses.is_dataclass\<close> holds; \<open>fs\<close> lists
    \<^verbatim>\<open>dataclasses.fields\<close> in declaration order, each with the value \<^verbatim>\<open>getattr\<close> reads.
  \<^item> \<open>PDict kvs\<close> is a dict in insertion order. A Python dict holds a key once, so the keys
    of a \<open>PDict\<close> are meant to be distinct; keys are strings.
  \<^item> \<open>PList xs\<close> is any iterable that is neither a string nor a dict (list, tuple, ...),
    in iteration order.
  \<^item> \<open>PEnum n v\<close> is an \<^verbatim>\<open>Enum\<close> member with name \<open>n\<close> and value \<open>v\<close>.
  \<^item> \<open>PObj n\<close> is any other object (a class used as payload type, say): not iterable,
    truthy, without the attributes the compiler reads.
\<close>

datatype pyval =
    PNone
  | PBool bool
  | PInt int
  | PStr string
  | PObj string
  | PEnum string pyval
  | PData "(string \<times> pyval) list"
  | PDict "(string \<times> pyval) list"
  | PList "pyval list"

text \<open>The exceptions the compiler can end with. \<open>ExternalError\<close> is whatever
  \<^verbatim>\<open>type_as_jsonschema\<close> raises, named by its class.\<close>

datatype error = AttributeError | KeyError | TypeError | ExternalError string

type_synonym pydict = "(string \<times> pyval) list"

text \<open>Truth value testing (\<^verbatim>\<open>if x:\<close>, \<^verbatim>\<open>x and y\<close>).\<close>

fun truthy :: "pyval \<Rightarrow> bool" where
  "truthy PNone = False"
| "truthy (PBool b) = b"
| "truthy (PInt i) = (i \<noteq> 0)"
| "truthy (PStr s) = (s \<noteq> [])"
| "truthy (PObj n) = True"
| "truthy (PEnum n v) = True"
| "truthy (PData fs) = True"
| "truthy (PDict kvs) = (kvs \<noteq> [])"
| "truthy (PList xs) = (xs \<noteq> [])"

text \<open>Whether a value can be a dict key: lists, dicts and (mutable) dataclass instances
  cannot.\<close>

fun hashable :: "pyval \<Rightarrow> bool" where
  "hashable (PData fs) = False"
| "hashable (PDict kvs) = False"
| "hashable (PList xs) = False"
| "hashable v = True"

subsection \<open>Dict operations\<close>

text \<open>\<^verbatim>\<open>d[k] = v\<close>: an existing key keeps its position, a new key goes last.\<close>

primrec dict_setitem :: "'k \<Rightarrow> 'v \<Rightarrow> ('k \<times> 'v) list \<Rightarrow> ('k \<times> 'v) list" where
  "dict_setitem k v [] = [(k, v)]"
| "dict_setitem k v (p # ps) = (if fst p = k then (k, v) # ps else p # dict_setitem k v ps)"

text \<open>\<^verbatim>\<open>d.pop(k, None)\<close>, for the dict that is left.\<close>

primrec dict_pop :: "'k \<Rightarrow> ('k \<times> 'v) list \<Rightarrow> ('k \<times> 'v) list" where
  "dict_pop k [] = []"
| "dict_pop k (p # ps) = (if fst p = k then dict_pop k ps else p # dict_pop k ps)"

definition dict_values :: "('k \<times> 'v) list \<Rightarrow> 'v list" where
  "dict_values d = map snd d"

text \<open>The same operations on a Python object, with the exception a non-dict raises.\<close>

fun getattr :: "pyval \<Rightarrow> string \<Rightarrow> error + pyval" where
  "getattr (PData fs) n = (case map_of fs n of Some v \<Rightarrow> Inr v | None \<Rightarrow> Inl AttributeError)"
| "getattr (PEnum m v) n =
     (if n = ''name'' then Inr (PStr m) else if n = ''value'' then Inr v else Inl AttributeError)"
| "getattr x n = Inl AttributeError"

fun getitem :: "pyval \<Rightarrow> string \<Rightarrow> error + pyval" where
  "getitem (PDict d) k = (case map_of d k of Some v \<Rightarrow> Inr v | None \<Rightarrow> Inl KeyError)"
| "getitem x k = Inl TypeError"

fun setitem :: "pyval \<Rightarrow> string \<Rightarrow> pyval \<Rightarrow> error + pyval" where
  "setitem (PDict d) k v = Inr (PDict (dict_setitem k v d))"
| "setitem x k v = Inl TypeError"

fun pop :: "pyval \<Rightarrow> string \<Rightarrow> error + pyval" where
  "pop (PDict d) k = Inr (PDict (dict_pop k d))"
| "pop (PList xs) k = Inl TypeError"
| "pop x k = Inl AttributeError"

fun items :: "pyval \<Rightarrow> error + pydict" where
  "items (PDict d) = Inr d"
| "items x = Inl AttributeError"

text \<open>A chain of subscriptions \<^verbatim>\<open>x[k1][k2]...\<close>.\<close>

fun getpath :: "pyval \<Rightarrow> string list \<Rightarrow> error + pyval" where
  "getpath x [] = Inr x"
| "getpath x (k # ks) = (case getitem x k of Inl e \<Rightarrow> Inl e | Inr y \<Rightarrow> getpath y ks)"

subsection \<open>Field names\<close>

text \<open>
  Modelled from the spec: \<^verbatim>\<open>as_camel_case\<close> is imported from
  \<^verbatim>\<open>asyncapi.specification_v2_0_0\<close>, which is not among the sources. The spec: "lowercase
  segments joined by \<^verbatim>\<open>_\<close> become camelCase: first segment unchanged, subsequent segments
  capitalized, underscores removed".
\<close>

definition upper_char :: "char \<Rightarrow> char" where
  "upper_char c =
     (case map_of (zip ''abcdefghijklmnopqrstuvwxyz'' ''ABCDEFGHIJKLMNOPQRSTUVWXYZ'') c of
        Some u \<Rightarrow> u | None \<Rightarrow> c)"

fun capitalize :: "string \<Rightarrow> string" where
  "capitalize [] = []"
| "capitalize (c # cs) = upper_char c # cs"

text \<open>\<^verbatim>\<open>name.split('_')\<close>: the segments between underscores, empty ones included.\<close>

fun split_underscore :: "string \<Rightarrow> string list" where
  "split_underscore [] = [[]]"
| "split_underscore (c # cs) =
     (if c = CHR ''_'' then [] # split_underscore cs
      else (case split_underscore cs of
              [] \<Rightarrow> [[c]]
            | s # ss \<Rightarrow> (c # s) # ss))"

definition as_camel_case :: "string \<Rightarrow> string" where
  "as_camel_case n =
     (case split_underscore n of
        [] \<Rightarrow> []
      | first # rest \<Rightarrow> first @ concat (map capitalize rest))"

section \<open>The generic serializer\<close>

text \<open>
  \<^verbatim>\<open>_spec_asjson\<close> (the leading underscore is not an Isabelle identifier, hence \<open>u_\<close>).
  The branches in the source's order: dataclass, dict, non-string iterable, enumerant,
  anything else.
  \<^item> Dataclass: the fields are serialized in order and stored by assignment
    \<^verbatim>\<open>json_value[as_camel_case(field.name)] = field_value\<close> unless the serialized value
    is \<^verbatim>\<open>None\<close> or \<^verbatim>\<open>''\<close>.
  \<^item> Dict: the comprehension \<^verbatim>\<open>{k: _spec_asjson(v) for k, v in generic_value.items()}\<close>
    assigns the entries one by one to a new dict.
  \<^item> Enumerant: \<^verbatim>\<open>generic_value.value\<close>, not serialized further.
\<close>

definition store_field :: "string \<times> pyval \<Rightarrow> pydict \<Rightarrow> pydict" where
  "store_field f json_value =
     (if snd f \<noteq> PNone \<and> snd f \<noteq> PStr []
      then dict_setitem (as_camel_case (fst f)) (snd f) json_value
      else json_value)"

definition store_entry :: "string \<times> pyval \<Rightarrow> pydict \<Rightarrow> pydict" where
  "store_entry e json_value = dict_setitem (fst e) (snd e) json_value"

text \<open>The keys under which the fields of a dataclass are stored.\<close>

definition field_keys :: "pydict \<Rightarrow> string list" where
  "field_keys fs = map (\<lambda>f. as_camel_case (fst f)) fs"

primrec u_spec_asjson :: "pyval \<Rightarrow> pyval" where
  "u_spec_asjson (PData fs) =
     PDict (fold store_field (map (map_prod id u_spec_asjson) fs) [])"
| "u_spec_asjson (PDict kvs) =
     PDict (fold store_entry (map (map_prod id u_spec_asjson) kvs) [])"
| "u_spec_asjson (PList xs) = PList (map u_spec_asjson xs)"
| "u_spec_asjson (PEnum n v) = v"
| "u_spec_asjson PNone = PNone"
| "u_spec_asjson (PBool b) = PBool b"
| "u_spec_asjson (PInt i) = PInt i"
| "u_spec_asjson (PStr s) = PStr s"
| "u_spec_asjson (PObj n) = PObj n"

section \<open>The compiler\<close>

text \<open>
  \<^verbatim>\<open>type_as_jsonschema\<close> is imported from \<^verbatim>\<open>asyncapi.schema\<close>, which is not among the
  sources; it is the parameter \<open>tj\<close>, a function from a payload type to a schema or an
  exception.

  \<^verbatim>\<open>json_spec\<close> is a local tree that the source mutates in place. Every dict and list in it
  is built by \<^verbatim>\<open>_spec_asjson\<close> for this call, so the model passes the tree along and
  returns the updated one; an assignment to an existing key keeps the key's position.
\<close>

type_synonym schema_gen = "pyval \<Rightarrow> error + pyval"

text \<open>
  \<^verbatim>\<open>json_spec_messages\<close>: declared name to components key, in insertion order. The
  annotation is \<^verbatim>\<open>Dict[str, str]\<close>; the names are read from the specification as they are,
  so the keys are Python values, compared by value.
\<close>

type_synonym registry = "(pyval \<times> string) list"

subsection \<open>\<^verbatim>\<open>set_operation_message\<close>\<close>

text \<open>The \<^verbatim>\<open>$ref\<close> dict of the first branch; the f-string formats the key, a string.\<close>

definition ref_message :: "string \<Rightarrow> pyval" where
  "ref_message key = PDict [(''$ref'', PStr (''#/components/messages/'' @ key))]"

text \<open>
  \<^verbatim>\<open>operation and operation.message\<close>: the message if both are truthy, \<open>None\<close> if the
  conjunction is falsy, the \<^verbatim>\<open>AttributeError\<close> if \<^verbatim>\<open>operation\<close> is truthy and has no
  such attribute.
\<close>

definition operation_message :: "pyval \<Rightarrow> error + pyval option" where
  "operation_message operation =
     (if \<not> truthy operation then Inr None
      else case getattr operation ''message'' of
             Inl e \<Rightarrow> Inl e
           | Inr message \<Rightarrow> Inr (if truthy message then Some message else None))"

text \<open>The condition of the \<^verbatim>\<open>if\<close>: the key to refer to when it holds.\<close>

definition resolvable_name :: "pyval \<Rightarrow> registry \<Rightarrow> error + string option" where
  "resolvable_name operation json_spec_messages =
     (case operation_message operation of
        Inl e \<Rightarrow> Inl e
      | Inr None \<Rightarrow> Inr None
      | Inr (Some message) \<Rightarrow>
          (case getattr message ''name'' of
             Inl e \<Rightarrow> Inl e
           | Inr name \<Rightarrow>
               if \<not> truthy name then Inr None
               else if \<not> hashable name then Inl TypeError
               else Inr (map_of json_spec_messages name)))"

text \<open>The condition of the \<^verbatim>\<open>elif\<close>: the payload to inline when it holds.\<close>

definition inline_payload :: "pyval \<Rightarrow> error + pyval option" where
  "inline_payload operation =
     (case operation_message operation of
        Inl e \<Rightarrow> Inl e
      | Inr None \<Rightarrow> Inr None
      | Inr (Some message) \<Rightarrow>
          (case getattr message ''payload'' of
             Inl e \<Rightarrow> Inl e
           | Inr payload \<Rightarrow> Inr (if truthy payload then Some payload else None)))"

text \<open>Returns \<^verbatim>\<open>operation_dict\<close> as the call leaves it.\<close>

definition set_operation_message ::
  "schema_gen \<Rightarrow> pyval \<Rightarrow> pyval \<Rightarrow> registry \<Rightarrow> error + pyval" where
  "set_operation_message tj operation_dict operation json_spec_messages =
     (case getitem operation_dict ''message'' of
        Inl e \<Rightarrow> Inl e
      | Inr message_dict \<Rightarrow>
     (case pop message_dict ''contentType'' of
        Inl e \<Rightarrow> Inl e
      | Inr message_dict' \<Rightarrow>
     (case resolvable_name operation json_spec_messages of
        Inl e \<Rightarrow> Inl e
      | Inr (Some key) \<Rightarrow> setitem operation_dict ''message'' (ref_message key)
      | Inr None \<Rightarrow>
     (case inline_payload operation of
        Inl e \<Rightarrow> Inl e
      | Inr None \<Rightarrow> setitem operation_dict ''message'' message_dict'
      | Inr (Some payload) \<Rightarrow>
     (case tj payload of
        Inl e \<Rightarrow> Inl e
      | Inr schema \<Rightarrow>
     (case setitem message_dict' ''payload'' schema of
        Inl e \<Rightarrow> Inl e
      | Inr message_dict'' \<Rightarrow> setitem operation_dict ''message'' message_dict''))))))"

subsection \<open>\<^verbatim>\<open>spec_asjson\<close>\<close>

text \<open>
  \<^verbatim>\<open>spec.components.messages if spec.components and spec.components.messages else {}\<close>,
  and its \<^verbatim>\<open>.items()\<close>.
\<close>

definition spec_messages_dict :: "pyval \<Rightarrow> error + pyval" where
  "spec_messages_dict spec =
     (case getattr spec ''components'' of
        Inl e \<Rightarrow> Inl e
      | Inr components \<Rightarrow>
          if \<not> truthy components then Inr (PDict [])
          else case getattr components ''messages'' of
                 Inl e \<Rightarrow> Inl e
               | Inr messages \<Rightarrow> Inr (if truthy messages then messages else PDict []))"

text \<open>
  \<^verbatim>\<open>json_spec['components']['messages'][message_name]['payload'] = schema\<close>: the three
  subscriptions, the assignment, and the tree around the message that was changed.
\<close>

definition set_message_payload :: "pyval \<Rightarrow> string \<Rightarrow> pyval \<Rightarrow> error + pyval" where
  "set_message_payload json_spec message_name schema =
     (case getitem json_spec ''components'' of
        Inl e \<Rightarrow> Inl e
      | Inr components \<Rightarrow>
     (case getitem components ''messages'' of
        Inl e \<Rightarrow> Inl e
      | Inr messages \<Rightarrow>
     (case getitem messages message_name of
        Inl e \<Rightarrow> Inl e
      | Inr message \<Rightarrow>
     (case setitem message ''payload'' schema of
        Inl e \<Rightarrow> Inl e
      | Inr message' \<Rightarrow>
     (case setitem messages message_name message' of
        Inl e \<Rightarrow> Inl e
      | Inr messages' \<Rightarrow>
     (case setitem components ''messages'' messages' of
        Inl e \<Rightarrow> Inl e
      | Inr components' \<Rightarrow> setitem json_spec ''components'' components'))))))"

text \<open>
  The first loop, over \<^verbatim>\<open>spec_messages_dict.items()\<close>. The right-hand side of the
  assignment (the attribute and the call of \<^verbatim>\<open>type_as_jsonschema\<close>) is evaluated before
  the subscriptions of its target.
\<close>

fun messages_loop ::
  "schema_gen \<Rightarrow> pydict \<Rightarrow> pyval \<Rightarrow> registry \<Rightarrow> error + pyval \<times> registry" where
  "messages_loop tj [] json_spec json_spec_messages = Inr (json_spec, json_spec_messages)"
| "messages_loop tj ((message_name, message_type) # rest) json_spec json_spec_messages =
     (case getattr message_type ''payload'' of
        Inl e \<Rightarrow> Inl e
      | Inr payload \<Rightarrow>
          if \<not> truthy payload then messages_loop tj rest json_spec json_spec_messages
          else
     (case tj payload of
        Inl e \<Rightarrow> Inl e
      | Inr schema \<Rightarrow>
     (case set_message_payload json_spec message_name schema of
        Inl e \<Rightarrow> Inl e
      | Inr json_spec' \<Rightarrow>
     (case getattr message_type ''name'' of
        Inl e \<Rightarrow> Inl e
      | Inr name \<Rightarrow>
          if \<not> truthy name then messages_loop tj rest json_spec' json_spec_messages
          else if \<not> hashable name then Inl TypeError
          else messages_loop tj rest json_spec'
                 (dict_setitem name message_name json_spec_messages)))))"

text \<open>The second loop: \<^verbatim>\<open>server.pop('name', None)\<close> for the values of a dict, in order.\<close>

fun pop_names :: "pydict \<Rightarrow> error + pydict" where
  "pop_names [] = Inr []"
| "pop_names ((k, server) # rest) =
     (case pop server ''name'' of
        Inl e \<Rightarrow> Inl e
      | Inr server' \<Rightarrow>
          (case pop_names rest of
             Inl e \<Rightarrow> Inl e
           | Inr rest' \<Rightarrow> Inr ((k, server') # rest')))"

definition servers_loop :: "pyval \<Rightarrow> error + pyval" where
  "servers_loop json_spec =
     (case getitem json_spec ''servers'' of
        Inl e \<Rightarrow> Inl e
      | Inr servers \<Rightarrow>
     (case items servers of
        Inl e \<Rightarrow> Inl e
      | Inr entries \<Rightarrow>
     (case pop_names entries of
        Inl e \<Rightarrow> Inl e
      | Inr entries' \<Rightarrow> setitem json_spec ''servers'' (PDict entries'))))"

text \<open>
  One of the two \<^verbatim>\<open>if '...' in channel_dict:\<close> blocks of the third loop, for the key and
  attribute \<open>op\<close> (\<^verbatim>\<open>subscribe\<close>, \<^verbatim>\<open>publish\<close>).
\<close>

definition set_channel_operation ::
  "schema_gen \<Rightarrow> registry \<Rightarrow> string \<Rightarrow> pydict \<Rightarrow> pyval \<Rightarrow> error + pydict" where
  "set_channel_operation tj json_spec_messages op channel_dict channel =
     (case map_of channel_dict op of
        None \<Rightarrow> Inr channel_dict
      | Some operation_dict \<Rightarrow>
     (case getattr channel op of
        Inl e \<Rightarrow> Inl e
      | Inr operation \<Rightarrow>
     (case set_operation_message tj operation_dict operation json_spec_messages of
        Inl e \<Rightarrow> Inl e
      | Inr operation_dict' \<Rightarrow> Inr (dict_setitem op operation_dict' channel_dict))))"

text \<open>The body of the third loop; \<^verbatim>\<open>channel_dict.pop('name', None)\<close> comes first.\<close>

fun set_channel :: "schema_gen \<Rightarrow> registry \<Rightarrow> pyval \<Rightarrow> pyval \<Rightarrow> error + pyval" where
  "set_channel tj json_spec_messages (PDict channel_dict) channel =
     (case set_channel_operation tj json_spec_messages ''subscribe''
             (dict_pop ''name'' channel_dict) channel of
        Inl e \<Rightarrow> Inl e
      | Inr channel_dict' \<Rightarrow>
     (case set_channel_operation tj json_spec_messages ''publish'' channel_dict' channel of
        Inl e \<Rightarrow> Inl e
      | Inr channel_dict'' \<Rightarrow> Inr (PDict channel_dict'')))"
| "set_channel tj json_spec_messages (PList xs) channel = Inl TypeError"
| "set_channel tj json_spec_messages x channel = Inl AttributeError"

text \<open>
  The third loop: \<^verbatim>\<open>zip\<close> pairs the values of \<^verbatim>\<open>json_spec['channels']\<close> with those of
  \<^verbatim>\<open>spec.channels\<close> by position and stops with the shorter one.
\<close>

fun channels_zip ::
  "schema_gen \<Rightarrow> registry \<Rightarrow> pydict \<Rightarrow> pyval list \<Rightarrow> error + pydict" where
  "channels_zip tj json_spec_messages ((k, channel_dict) # cds) (channel # channels) =
     (case set_channel tj json_spec_messages channel_dict channel of
        Inl e \<Rightarrow> Inl e
      | Inr channel_dict' \<Rightarrow>
          (case channels_zip tj json_spec_messages cds channels of
             Inl e \<Rightarrow> Inl e
           | Inr cds' \<Rightarrow> Inr ((k, channel_dict') # cds')))"
| "channels_zip tj json_spec_messages cds channels = Inr cds"

definition channels_loop :: "schema_gen \<Rightarrow> registry \<Rightarrow> pyval \<Rightarrow> pyval \<Rightarrow> error + pyval" where
  "channels_loop tj json_spec_messages json_spec spec =
     (case getitem json_spec ''channels'' of
        Inl e \<Rightarrow> Inl e
      | Inr channels_dict \<Rightarrow>
     (case items channels_dict of
        Inl e \<Rightarrow> Inl e
      | Inr cds \<Rightarrow>
     (case getattr spec ''channels'' of
        Inl e \<Rightarrow> Inl e
      | Inr channels \<Rightarrow>
     (case items channels of
        Inl e \<Rightarrow> Inl e
      | Inr cs \<Rightarrow>
     (case channels_zip tj json_spec_messages cds (dict_values cs) of
        Inl e \<Rightarrow> Inl e
      | Inr cds' \<Rightarrow> setitem json_spec ''channels'' (PDict cds'))))))"

definition spec_asjson :: "schema_gen \<Rightarrow> pyval \<Rightarrow> error + pyval" where
  "spec_asjson tj spec =
     (case spec_messages_dict spec of
        Inl e \<Rightarrow> Inl e
      | Inr messages \<Rightarrow>
     (case items messages of
        Inl e \<Rightarrow> Inl e
      | Inr entries \<Rightarrow>
     (case messages_loop tj entries (u_spec_asjson spec) [] of
        Inl e \<Rightarrow> Inl e
      | Inr (json_spec, json_spec_messages) \<Rightarrow>
     (case servers_loop json_spec of
        Inl e \<Rightarrow> Inl e
      | Inr json_spec' \<Rightarrow> channels_loop tj json_spec_messages json_spec' spec))))"

text \<open>The local \<^verbatim>\<open>json_spec_messages\<close> of \<^verbatim>\<open>spec_asjson\<close> as the first loop leaves it.\<close>

definition json_spec_messages :: "schema_gen \<Rightarrow> pyval \<Rightarrow> error + registry" where
  "json_spec_messages tj spec =
     (case spec_messages_dict spec of
        Inl e \<Rightarrow> Inl e
      | Inr messages \<Rightarrow>
     (case items messages of
        Inl e \<Rightarrow> Inl e
      | Inr entries \<Rightarrow>
     (case messages_loop tj entries (u_spec_asjson spec) [] of
        Inl e \<Rightarrow> Inl e
      | Inr (json_spec, registry) \<Rightarrow> Inr registry)))"

subsection \<open>The arguments of \<^verbatim>\<open>type_as_jsonschema\<close>\<close>

text \<open>
  The payload types that \<^verbatim>\<open>spec_asjson\<close> can pass to \<^verbatim>\<open>type_as_jsonschema\<close>:
  \<^verbatim>\<open>message_type.payload\<close> for the entries of the components table (first loop) and
  \<^verbatim>\<open>operation.message.payload\<close> for the two operations of every channel (third loop).
\<close>

definition message_payloads :: "pyval \<Rightarrow> pyval list" where
  "message_payloads message =
     (case getattr message ''payload'' of Inl e \<Rightarrow> [] | Inr payload \<Rightarrow> [payload])"

definition operation_payloads :: "pyval \<Rightarrow> pyval list" where
  "operation_payloads operation =
     (case getattr operation ''message'' of Inl e \<Rightarrow> [] | Inr message \<Rightarrow> message_payloads message)"

definition channel_payloads :: "pyval \<Rightarrow> pyval list" where
  "channel_payloads channel =
     (case getattr channel ''subscribe'' of Inl e \<Rightarrow> [] | Inr operation \<Rightarrow> operation_payloads operation) @
     (case getattr channel ''publish'' of Inl e \<Rightarrow> [] | Inr operation \<Rightarrow> operation_payloads operation)"

definition spec_payloads :: "pyval \<Rightarrow> pyval list" where
  "spec_payloads spec =
     (case spec_messages_dict spec of
        Inr (PDict entries) \<Rightarrow> concat (map message_payloads (dict_values entries))
      | _ \<Rightarrow> []) @
     (case getattr spec ''channels'' of
        Inr (PDict channels) \<Rightarrow> concat (map channel_payloads (dict_values channels))
      | _ \<Rightarrow> [])"

section \<open>Well-formed specifications\<close>

text \<open>
  The shape of a \<^verbatim>\<open>Specification\<close> as the source reads it (\<^verbatim>\<open>spec.components.messages\<close>,
  \<^verbatim>\<open>spec.channels\<close>, \<^verbatim>\<open>channel.subscribe\<close>, \<^verbatim>\<open>operation.message.name\<close>, ...) and as its
  annotations say (\<^verbatim>\<open>Optional[Operation]\<close>, \<^verbatim>\<open>Dict[str, str]\<close> for the names):
  dataclasses whose fields have distinct keys, dicts with distinct keys, a name that is a
  string or \<^verbatim>\<open>None\<close>. An operation is required to have a message: with
  \<^verbatim>\<open>message=None\<close> the source raises a \<^verbatim>\<open>KeyError\<close>.
\<close>

fun wf_name :: "pyval \<Rightarrow> bool" where
  "wf_name PNone = True"
| "wf_name (PStr s) = True"
| "wf_name v = False"

fun wf_message :: "pyval \<Rightarrow> bool" where
  "wf_message (PData mfs) =
     ((case map_of mfs ''name'' of Some n \<Rightarrow> wf_name n | None \<Rightarrow> False) \<and>
      map_of mfs ''payload'' \<noteq> None)"
| "wf_message v = False"

text \<open>\<^verbatim>\<open>Optional[Operation]\<close>: \<^verbatim>\<open>None\<close>, or an operation with a message.\<close>

fun wf_operation :: "pyval \<Rightarrow> bool" where
  "wf_operation PNone = True"
| "wf_operation (PData ofs) =
     (distinct (field_keys ofs) \<and>
      (case map_of ofs ''message'' of Some m \<Rightarrow> wf_message m | None \<Rightarrow> False))"
| "wf_operation v = False"

fun wf_channel :: "pyval \<Rightarrow> bool" where
  "wf_channel (PData cfs) =
     (distinct (field_keys cfs) \<and>
      (case map_of cfs ''subscribe'' of Some operation \<Rightarrow> wf_operation operation | None \<Rightarrow> False) \<and>
      (case map_of cfs ''publish'' of Some operation \<Rightarrow> wf_operation operation | None \<Rightarrow> False))"
| "wf_channel v = False"

fun wf_server :: "pyval \<Rightarrow> bool" where
  "wf_server (PData sfs) = True"
| "wf_server v = False"

fun wf_messages :: "pyval \<Rightarrow> bool" where
  "wf_messages PNone = True"
| "wf_messages (PDict entries) =
     (distinct (map fst entries) \<and> list_all wf_message (map snd entries))"
| "wf_messages v = False"

fun wf_components :: "pyval \<Rightarrow> bool" where
  "wf_components PNone = True"
| "wf_components (PData cfs) =
     (distinct (field_keys cfs) \<and>
      (case map_of cfs ''messages'' of Some messages \<Rightarrow> wf_messages messages | None \<Rightarrow> False))"
| "wf_components v = False"

fun wf_servers :: "pyval \<Rightarrow> bool" where
  "wf_servers (PDict servers) =
     (distinct (map fst servers) \<and> list_all wf_server (map snd servers))"
| "wf_servers v = False"

fun wf_channels :: "pyval \<Rightarrow> bool" where
  "wf_channels (PDict channels) =
     (distinct (map fst channels) \<and> list_all wf_channel (map snd channels))"
| "wf_channels v = False"

fun wf_spec :: "pyval \<Rightarrow> bool" where
  "wf_spec (PData fs) =
     (distinct (field_keys fs) \<and>
      (case map_of fs ''servers'' of Some servers \<Rightarrow> wf_servers servers | None \<Rightarrow> False) \<and>
      (case map_of fs ''channels'' of Some channels \<Rightarrow> wf_channels channels | None \<Rightarrow> False) \<and>
      (case map_of fs ''components'' of Some components \<Rightarrow> wf_components components
       | None \<Rightarrow> False))"
| "wf_spec v = False"

text \<open>
  Whether an entry of the components table passes both tests of the first loop
  (\<^verbatim>\<open>if message_type.payload:\<close>, \<^verbatim>\<open>if message_type.name:\<close>) with this name, and so is
  recorded in \<^verbatim>\<open>json_spec_messages\<close>.
\<close>

definition declares :: "pyval \<Rightarrow> pyval \<Rightarrow> bool" where
  "declares message_type name =
     (case getattr message_type ''payload'' of
        Inl e \<Rightarrow> False
      | Inr payload \<Rightarrow>
          truthy payload \<and> getattr message_type ''name'' = Inr name \<and> truthy name)"

text \<open>Whether \<^verbatim>\<open>json_spec['components']['messages'][k]\<close> is there and is a dict.\<close>

definition message_dict :: "pyval \<Rightarrow> string \<Rightarrow> bool" where
  "message_dict json_spec k =
     (case getitem json_spec ''components'' of
        Inl e \<Rightarrow> False
      | Inr components \<Rightarrow>
          (case getitem components ''messages'' of
             Inl e \<Rightarrow> False
           | Inr messages \<Rightarrow>
               (case getitem messages k of Inr (PDict d) \<Rightarrow> True | _ \<Rightarrow> False)))"

section \<open>Example specifications\<close>

text \<open>A stand-in for \<^verbatim>\<open>type_as_jsonschema\<close> that never raises.\<close>

definition object_schema :: schema_gen where
  "object_schema payload = Inr (PDict [(''type'', PStr ''object'')])"

text \<open>One that raises for the type \<^verbatim>\<open>Unsupported\<close> and answers like \<open>object_schema\<close> otherwise.\<close>

definition picky_schema :: schema_gen where
  "picky_schema payload =
     (if payload = PObj ''Unsupported'' then Inl (ExternalError ''SchemaGenerationError'')
      else Inr (PDict [(''type'', PStr ''object'')]))"

text \<open>\<^verbatim>\<open>Message(name='OrderCreated', payload=Order, content_type='application/json')\<close>\<close>

definition order_created :: pyval where
  "order_created = PData [(''name'', PStr ''OrderCreated''), (''payload'', PObj ''Order''),
     (''content_type'', PStr ''application/json'')]"

text \<open>\<^verbatim>\<open>Message(name=None, payload=Ack, content_type='application/json')\<close>\<close>

definition unnamed_message :: pyval where
  "unnamed_message = PData [(''name'', PNone), (''payload'', PObj ''Ack''),
     (''content_type'', PStr ''application/json'')]"

text \<open>\<^verbatim>\<open>Message(name='OrderCreated', payload=None, content_type=None)\<close>\<close>

definition order_created_no_payload :: pyval where
  "order_created_no_payload = PData [(''name'', PStr ''OrderCreated''), (''payload'', PNone),
     (''content_type'', PNone)]"

definition orders_channel_fields :: pydict where
  "orders_channel_fields = [(''name'', PStr ''orders''),
     (''subscribe'', PData [(''operation_id'', PStr ''ack''), (''message'', unnamed_message)]),
     (''publish'', PData [(''operation_id'', PStr ''create''), (''message'', order_created)])]"

text \<open>One server, one channel with both operations, and the given components table.\<close>

definition spec_fields :: "pydict \<Rightarrow> pydict" where
  "spec_fields messages =
     [(''info'', PData [(''title'', PStr ''Orders'')]),
      (''servers'', PDict [(''dev'', PData [(''name'', PStr ''dev''), (''url'', PStr ''localhost'')])]),
      (''channels'', PDict [(''orders'', PData orders_channel_fields)]),
      (''components'', PData [(''messages'', PDict messages)])]"

definition orders_fields :: pydict where
  "orders_fields = spec_fields [(''order-created'', order_created)]"

definition orders_doc :: pyval where
  "orders_doc = PDict
     [(''info'', PDict [(''title'', PStr ''Orders'')]),
      (''servers'', PDict [(''dev'', PDict [(''url'', PStr ''localhost'')])]),
      (''channels'', PDict [(''orders'', PDict
         [(''subscribe'', PDict [(''operationId'', PStr ''ack''),
            (''message'', PDict [(''payload'', PDict [(''type'', PStr ''object'')])])]),
          (''publish'', PDict [(''operationId'', PStr ''create''),
            (''message'', PDict [(''$ref'', PStr ''#/components/messages/order-created'')])])])]),
      (''components'', PDict [(''messages'', PDict [(''order-created'', PDict
         [(''name'', PStr ''OrderCreated''), (''payload'', PDict [(''type'', PStr ''object'')]),
          (''contentType'', PStr ''application/json'')])])])]"

text \<open>Two components keys with the same declared name.\<close>

definition duplicate_fields :: pydict where
  "duplicate_fields =
     spec_fields [(''order-created'', order_created), (''order-created-v2'', order_created)]"


text \<open>A named components message without payload.\<close>

definition no_payload_fields :: pydict where
  "no_payload_fields = spec_fields [(''order-created'', order_created_no_payload)]"


text \<open>A channel whose \<^verbatim>\<open>subscribe\<close> is \<^verbatim>\<open>Operation(operation_id='ack', message=None)\<close>.\<close>

definition absent_message_spec :: pyval where
  "absent_message_spec = PData
     [(''info'', PData [(''title'', PStr ''Orders'')]),
      (''servers'', PDict [(''dev'', PData [(''name'', PStr ''dev''), (''url'', PStr ''localhost'')])]),
      (''channels'', PDict [(''orders'', PData [(''name'', PStr ''orders''),
         (''subscribe'', PData [(''operation_id'', PStr ''ack''), (''message'', PNone)]),
         (''publish'', PNone)])]),
      (''components'', PNone)]"

section \<open>Dicts\<close>

lemma map_of_dict_setitem: "map_of (dict_setitem k v d) = (map_of d)(k \<mapsto> v)"
  by (induction d) auto

lemma keys_dict_setitem:
  "map fst (dict_setitem k v d) = (if k \<in> fst ` set d then map fst d else map fst d @ [k])"
  by (induction d) auto

lemma dict_setitem_fresh: "k \<notin> fst ` set d \<Longrightarrow> dict_setitem k v d = d @ [(k, v)]"
  by (induction d) auto

lemma map_of_dict_pop: "map_of (dict_pop k d) = (map_of d)(k := None)"
  by (induction d) auto

lemma fold_store_entry_distinct:
  "distinct (map fst (acc @ kvs)) \<Longrightarrow> fold store_entry kvs acc = acc @ kvs"
proof (induction kvs arbitrary: acc)
  case Nil
  then show ?case by simp
next
  case (Cons e kvs)
  from Cons.prems have fresh: "fst e \<notin> fst ` set acc" by auto
  have "store_entry e acc = acc @ [e]"
    using fresh by (simp add: store_entry_def dict_setitem_fresh)
  moreover have "distinct (map fst ((acc @ [e]) @ kvs))" using Cons.prems by simp
  ultimately show ?case using Cons.IH [of "acc @ [e]"] by simp
qed

lemma u_spec_asjson_dict:
  "distinct (map fst kvs) \<Longrightarrow>
   u_spec_asjson (PDict kvs) = PDict (map (map_prod id u_spec_asjson) kvs)"
  using fold_store_entry_distinct [of "[]" "map (map_prod id u_spec_asjson) kvs"]
  by (simp add: comp_def)

section \<open>Properties of the generic serializer\<close>

lemma field_keys_simps [simp]:
  "field_keys [] = []"
  "field_keys (f # fs) = as_camel_case (fst f) # field_keys fs"
  "field_keys (map (map_prod id g) fs) = field_keys fs"
  by (simp_all add: field_keys_def comp_def)

lemma fold_store_field_other:
  "(\<forall>f \<in> set sfs. as_camel_case (fst f) = k \<longrightarrow> snd f = PNone \<or> snd f = PStr []) \<Longrightarrow>
   map_of (fold store_field sfs acc) k = map_of acc k"
  by (induction sfs arbitrary: acc) (auto simp: store_field_def map_of_dict_setitem)

lemma fold_store_field_kept:
  "(n, v) \<in> set sfs \<Longrightarrow> distinct (field_keys sfs) \<Longrightarrow>
   v \<noteq> PNone \<Longrightarrow> v \<noteq> PStr [] \<Longrightarrow>
   map_of (fold store_field sfs acc) (as_camel_case n) = Some v"
proof (induction sfs arbitrary: acc)
  case Nil
  then show ?case by simp
next
  case (Cons f sfs)
  show ?case
  proof (cases "f = (n, v)")
    case True
    have "\<forall>g \<in> set sfs. as_camel_case (fst g) \<noteq> as_camel_case n"
      using Cons.prems(2) True by (auto simp: field_keys_def image_iff)
    then have "map_of (fold store_field sfs (store_field f acc)) (as_camel_case n)
               = map_of (store_field f acc) (as_camel_case n)"
      by (intro fold_store_field_other) auto
    moreover have "store_field f acc = dict_setitem (as_camel_case n) v acc"
      using True Cons.prems(3,4) by (simp add: store_field_def)
    ultimately show ?thesis by (simp add: map_of_dict_setitem)
  next
    case False
    then have "(n, v) \<in> set sfs" using Cons.prems(1) by simp
    moreover have "distinct (field_keys sfs)"
      using Cons.prems(2) by simp
    ultimately show ?thesis using Cons.IH Cons.prems(3,4) by simp
  qed
qed

lemma fold_store_field_omitted:
  assumes "(n, v) \<in> set sfs" and "distinct (field_keys sfs)"
    and "v = PNone \<or> v = PStr []"
  shows "map_of (fold store_field sfs []) (as_camel_case n) = None"
proof -
  have "\<forall>f \<in> set sfs. as_camel_case (fst f) = as_camel_case n \<longrightarrow> f = (n, v)"
  proof
    fix f assume f: "f \<in> set sfs"
    show "as_camel_case (fst f) = as_camel_case n \<longrightarrow> f = (n, v)"
    proof
      assume eq: "as_camel_case (fst f) = as_camel_case n"
      have inj: "inj_on (as_camel_case \<circ> fst) (set sfs)"
        using assms(2) by (simp add: field_keys_def distinct_map comp_def)
      show "f = (n, v)" using inj_onD [OF inj, of f "(n, v)"] f assms(1) eq by simp
    qed
  qed
  then have "\<forall>f \<in> set sfs. as_camel_case (fst f) = as_camel_case n \<longrightarrow>
               snd f = PNone \<or> snd f = PStr []"
    using assms(3) by auto
  then show ?thesis using fold_store_field_other [of sfs "as_camel_case n" "[]"] by simp
qed



text \<open>
  C9. The omission rule is for dataclass fields only: the serialization of a dict has the
  keys of the input in the same order, each with the serialized value, \<^verbatim>\<open>None\<close> included.
\<close>

theorem mapping_keeps_every_key:
  assumes "distinct (map fst kvs)"
  shows "\<exists>out. u_spec_asjson (PDict kvs) = PDict out \<and> map fst out = map fst kvs \<and>
           (\<forall>(k, v) \<in> set kvs. map_of out k = Some (u_spec_asjson v))"
proof -
  let ?out = "map (map_prod id u_spec_asjson) kvs"
  have "map_of ?out k = Some (u_spec_asjson v)" if "(k, v) \<in> set kvs" for k v
  proof -
    have "distinct (map fst ?out)" using assms by (simp add: comp_def)
    moreover have "(k, u_spec_asjson v) \<in> set ?out" using that by force
    ultimately show ?thesis by (rule map_of_is_SomeI)
  qed
  then show ?thesis using u_spec_asjson_dict [OF assms] by (auto simp: comp_def)
qed

theorem mapping_keeps_every_key_witness:
  "distinct (map fst [(''a'', PNone), (''b'', PStr ''''), (''c'', PInt 1)]) \<and>
   (\<exists>out. u_spec_asjson (PDict [(''a'', PNone), (''b'', PStr ''''), (''c'', PInt 1)]) = PDict out \<and>
      map fst out = [''a'', ''b'', ''c''] \<and> map_of out ''a'' = Some PNone)"
  using mapping_keeps_every_key [of "[(''a'', PNone), (''b'', PStr ''''), (''c'', PInt 1)]"]
  by simp

section \<open>Subscription and assignment\<close>

lemma getitem_Inr: "getitem x k = Inr v \<longleftrightarrow> (\<exists>d. x = PDict d \<and> map_of d k = Some v)"
  by (cases x) (auto split: option.splits)

lemma setitem_Inr: "setitem x k v = Inr y \<longleftrightarrow> (\<exists>d. x = PDict d \<and> y = PDict (dict_setitem k v d))"
  by (cases x) auto

lemma pop_Inr: "pop x k = Inr y \<longleftrightarrow> (\<exists>d. x = PDict d \<and> y = PDict (dict_pop k d))"
  by (cases x) auto

lemma items_Inr: "items x = Inr d \<longleftrightarrow> x = PDict d"
  by (cases x) auto

lemma getitem_setitem_same: "setitem x k v = Inr y \<Longrightarrow> getitem y k = Inr v"
  by (auto simp: setitem_Inr map_of_dict_setitem)

lemma getitem_setitem_other: "setitem x k v = Inr y \<Longrightarrow> k' \<noteq> k \<Longrightarrow> getitem y k' = getitem x k'"
  by (auto simp: setitem_Inr map_of_dict_setitem)

section \<open>The loops leave the other keys alone\<close>

lemma set_message_payload_other:
  "set_message_payload js mn s = Inr js' \<Longrightarrow> k \<noteq> ''components'' \<Longrightarrow>
   getitem js' k = getitem js k"
  unfolding set_message_payload_def
  by (auto split: sum.splits dest: getitem_setitem_other)

lemma messages_loop_other:
  "messages_loop tj es js reg = Inr (js', reg') \<Longrightarrow> k \<noteq> ''components'' \<Longrightarrow>
   getitem js' k = getitem js k"
proof (induction tj es js reg rule: messages_loop.induct)
  case (1 tj js reg)
  then show ?case by simp
next
  case (2 tj mn mt rest js reg)
  show ?case
  proof (cases "getattr mt ''payload''")
    case (Inl e)
    then show ?thesis using "2.prems" by simp
  next
    case (Inr payload)
    show ?thesis
    proof (cases "truthy payload")
      case False
      then show ?thesis using "2.IH"(1) "2.prems" Inr by simp
    next
      case True
      from "2.prems"(1) Inr True obtain schema js1 name where
        s: "tj payload = Inr schema" and
        p: "set_message_payload js mn schema = Inr js1" and
        n: "getattr mt ''name'' = Inr name"
        by (auto split: sum.splits)
      have eq1: "getitem js1 k = getitem js k"
        using set_message_payload_other [OF p "2.prems"(2)] .
      show ?thesis
      proof (cases "truthy name")
        case False
        then have "messages_loop tj rest js1 reg = Inr (js', reg')"
          using "2.prems"(1) Inr True s p n by simp
        then show ?thesis
          using "2.IH"(2) [OF Inr _ s p n] True False "2.prems"(2) eq1 by simp
      next
        case tn: True
        then have h: "hashable name" and
          r: "messages_loop tj rest js1 (dict_setitem name mn reg) = Inr (js', reg')"
          using "2.prems"(1) Inr True s p n by (auto split: if_splits)
        show ?thesis
          using "2.IH"(3) [OF Inr _ s p n] True tn h r "2.prems"(2) eq1 by simp
      qed
    qed
  qed
qed

lemma servers_loop_Inr:
  assumes "servers_loop js = Inr js'"
  shows "\<exists>ss ss'. getitem js ''servers'' = Inr (PDict ss) \<and> pop_names ss = Inr ss' \<and>
           getitem js' ''servers'' = Inr (PDict ss') \<and>
           (\<forall>k. k \<noteq> ''servers'' \<longrightarrow> getitem js' k = getitem js k)"
  using assms unfolding servers_loop_def
  by (auto split: sum.splits simp: items_Inr dest: getitem_setitem_other getitem_setitem_same)

lemma channels_loop_Inr:
  assumes "channels_loop tj reg js spec = Inr js'"
  shows "\<exists>cds cs cds'. getitem js ''channels'' = Inr (PDict cds) \<and>
           getattr spec ''channels'' = Inr (PDict cs) \<and>
           channels_zip tj reg cds (map snd cs) = Inr cds' \<and>
           getitem js' ''channels'' = Inr (PDict cds') \<and>
           (\<forall>k. k \<noteq> ''channels'' \<longrightarrow> getitem js' k = getitem js k)"
  using assms unfolding channels_loop_def dict_values_def
  by (auto split: sum.splits simp: items_Inr dest: getitem_setitem_other getitem_setitem_same)

lemma spec_asjson_Inr:
  assumes "spec_asjson tj spec = Inr doc"
  shows "\<exists>entries js reg ss ss' cds cs cds'.
           spec_messages_dict spec = Inr (PDict entries) \<and>
           messages_loop tj entries (u_spec_asjson spec) [] = Inr (js, reg) \<and>
           getitem (u_spec_asjson spec) ''servers'' = Inr (PDict ss) \<and>
           pop_names ss = Inr ss' \<and>
           getitem doc ''servers'' = Inr (PDict ss') \<and>
           getitem (u_spec_asjson spec) ''channels'' = Inr (PDict cds) \<and>
           getattr spec ''channels'' = Inr (PDict cs) \<and>
           channels_zip tj reg cds (map snd cs) = Inr cds' \<and>
           getitem doc ''channels'' = Inr (PDict cds')"
proof -
  from assms obtain msgs entries js reg js2 where
    m: "spec_messages_dict spec = Inr msgs" and
    i: "items msgs = Inr entries" and
    l: "messages_loop tj entries (u_spec_asjson spec) [] = Inr (js, reg)" and
    s: "servers_loop js = Inr js2" and
    c: "channels_loop tj reg js2 spec = Inr doc"
    unfolding spec_asjson_def by (auto split: sum.splits)
  from i have msgs: "msgs = PDict entries" by (simp add: items_Inr)
  from servers_loop_Inr [OF s] obtain ss ss' where
    s1: "getitem js ''servers'' = Inr (PDict ss)" and
    s2: "pop_names ss = Inr ss'" and
    s3: "getitem js2 ''servers'' = Inr (PDict ss')" and
    s4: "\<forall>k. k \<noteq> ''servers'' \<longrightarrow> getitem js2 k = getitem js k"
    by blast
  from channels_loop_Inr [OF c] obtain cds cs cds' where
    c1: "getitem js2 ''channels'' = Inr (PDict cds)" and
    c2: "getattr spec ''channels'' = Inr (PDict cs)" and
    c3: "channels_zip tj reg cds (map snd cs) = Inr cds'" and
    c4: "getitem doc ''channels'' = Inr (PDict cds')" and
    c5: "\<forall>k. k \<noteq> ''channels'' \<longrightarrow> getitem doc k = getitem js2 k"
    by blast
  have "getitem (u_spec_asjson spec) ''servers'' = Inr (PDict ss)"
    using messages_loop_other [OF l, of "''servers''"] s1 by simp
  moreover have "getitem doc ''servers'' = Inr (PDict ss')"
    using c5 s3 by simp
  moreover have "getitem (u_spec_asjson spec) ''channels'' = Inr (PDict cds)"
    using messages_loop_other [OF l, of "''channels''"] s4 c1 by simp
  ultimately show ?thesis using m msgs l s2 c2 c3 c4 by blast
qed

section \<open>Field names of the compiler\<close>

lemma as_camel_case_keys:
  "as_camel_case ''servers'' = ''servers''"
  "as_camel_case ''channels'' = ''channels''"
  "as_camel_case ''components'' = ''components''"
  "as_camel_case ''messages'' = ''messages''"
  "as_camel_case ''subscribe'' = ''subscribe''"
  "as_camel_case ''publish'' = ''publish''"
  "as_camel_case ''message'' = ''message''"
  by (simp_all add: as_camel_case_def)

lemma getitem_field:
  assumes "distinct (field_keys fs)" and "map_of fs n = Some v"
    and "u_spec_asjson v \<noteq> PNone" and "u_spec_asjson v \<noteq> PStr []"
  shows "getitem (u_spec_asjson (PData fs)) (as_camel_case n) = Inr (u_spec_asjson v)"
proof -
  have "(n, u_spec_asjson v) \<in> set (map (map_prod id u_spec_asjson) fs)"
    using map_of_SomeD [OF assms(2)] by force
  then show ?thesis
    using fold_store_field_kept [of n "u_spec_asjson v" "map (map_prod id u_spec_asjson) fs" "[]"]
      assms by simp
qed

lemma dict_field:
  assumes "distinct (field_keys fs)" and "map_of fs n = Some (PDict kvs)"
    and "distinct (map fst kvs)"
  shows "getitem (u_spec_asjson (PData fs)) (as_camel_case n) =
           Inr (PDict (map (map_prod id u_spec_asjson) kvs))"
  using getitem_field [OF assms(1,2)] u_spec_asjson_dict [OF assms(3)] by simp

section \<open>Popping the names\<close>

lemma dict_pop_absent: "k \<notin> fst ` set (dict_pop k d)"
  by (induction d) auto

lemma pop_names_Inr:
  "pop_names ss = Inr ss' \<Longrightarrow>
   map fst ss' = map fst ss \<and>
   (\<forall>(k, s) \<in> set ss'. \<exists>d. s = PDict d \<and> ''name'' \<notin> fst ` set d)"
proof (induction ss arbitrary: ss')
  case Nil
  then show ?case by simp
next
  case (Cons p ss)
  obtain k server where p: "p = (k, server)" by (cases p)
  from Cons.prems p obtain server' rest' where
    a: "pop server ''name'' = Inr server'" and
    b: "pop_names ss = Inr rest'" and
    c: "ss' = (k, server') # rest'"
    by (auto split: sum.splits)
  from a obtain d where "server' = PDict (dict_pop ''name'' d)" by (auto simp: pop_Inr)
  then have hd: "\<exists>d. server' = PDict d \<and> ''name'' \<notin> fst ` set d"
    using dict_pop_absent [of "''name''" d] by blast
  have keys: "map fst rest' = map fst ss" and
    tl: "\<forall>(k, s) \<in> set rest'. \<exists>d. s = PDict d \<and> ''name'' \<notin> fst ` set d"
    using Cons.IH [OF b] by blast+
  have "map fst ss' = map fst (p # ss)" using keys p c by simp
  moreover have "\<forall>(k, s) \<in> set ss'. \<exists>d. s = PDict d \<and> ''name'' \<notin> fst ` set d"
    unfolding c using hd tl by simp
  ultimately show ?case by blast
qed

lemma set_channel_operation_keys:
  assumes "set_channel_operation tj reg op d ch = Inr d'"
  shows "map fst d' = map fst d"
proof (cases "map_of d op")
  case None
  then show ?thesis using assms by (simp add: set_channel_operation_def)
next
  case (Some od)
  then have "(op, od) \<in> set d" by (rule map_of_SomeD)
  then have mem: "op \<in> fst ` set d" by force
  from assms Some obtain od' where "d' = dict_setitem op od' d"
    by (auto simp: set_channel_operation_def split: sum.splits)
  then show ?thesis using mem by (simp add: keys_dict_setitem)
qed

lemma set_channel_Inr:
  assumes "set_channel tj reg cd ch = Inr cd'"
  shows "\<exists>d d'. cd = PDict d \<and> cd' = PDict d' \<and> map fst d' = map fst (dict_pop ''name'' d)"
proof (cases cd)
  case (PDict d)
  with assms obtain d1 d2 where
    a: "set_channel_operation tj reg ''subscribe'' (dict_pop ''name'' d) ch = Inr d1" and
    b: "set_channel_operation tj reg ''publish'' d1 ch = Inr d2" and
    c: "cd' = PDict d2"
    by (auto split: sum.splits)
  have "map fst d2 = map fst (dict_pop ''name'' d)"
    using set_channel_operation_keys [OF a] set_channel_operation_keys [OF b] by simp
  then show ?thesis using PDict c by simp
qed (use assms in simp_all)

lemma set_channel_no_name:
  assumes "set_channel tj reg cd ch = Inr cd'"
  shows "\<exists>d'. cd' = PDict d' \<and> ''name'' \<notin> fst ` set d'"
proof -
  from set_channel_Inr [OF assms] obtain d :: pydict and d' where
    c: "cd' = PDict d'" and k: "map fst d' = map fst (dict_pop ''name'' d)" by blast
  have "fst ` set d' = fst ` set (dict_pop ''name'' d)"
    using arg_cong [OF k, of set] by (simp only: set_map)
  then have "''name'' \<notin> fst ` set d'"
    using dict_pop_absent [of "''name''" d] by simp
  then show ?thesis using c by blast
qed

lemma channels_zip_keys:
  "channels_zip tj reg cds chs = Inr cds' \<Longrightarrow> map fst cds' = map fst cds"
proof (induction tj reg cds chs arbitrary: cds' rule: channels_zip.induct)
  case (1 tj reg k cd cds ch chs)
  from "1.prems" obtain cd' rest' where
    a: "set_channel tj reg cd ch = Inr cd'" and
    b: "channels_zip tj reg cds chs = Inr rest'" and
    c: "cds' = (k, cd') # rest'"
    by (auto split: sum.splits)
  show ?case using "1.IH" [OF a b] c by simp
qed simp_all

lemma channels_zip_no_name:
  "channels_zip tj reg cds chs = Inr cds' \<Longrightarrow> length cds \<le> length chs \<Longrightarrow>
   \<forall>(k, c) \<in> set cds'. \<exists>d. c = PDict d \<and> ''name'' \<notin> fst ` set d"
proof (induction tj reg cds chs arbitrary: cds' rule: channels_zip.induct)
  case (1 tj reg k cd cds ch chs)
  from "1.prems"(1) obtain cd' rest' where
    a: "set_channel tj reg cd ch = Inr cd'" and
    b: "channels_zip tj reg cds chs = Inr rest'" and
    c: "cds' = (k, cd') # rest'"
    by (auto split: sum.splits)
  have "\<forall>(k, c) \<in> set rest'. \<exists>d. c = PDict d \<and> ''name'' \<notin> fst ` set d"
    using "1.IH" [OF a b] "1.prems"(2) by simp
  then show ?case unfolding c using set_channel_no_name [OF a] by simp
qed simp_all

section \<open>Operations of a channel\<close>

lemma set_operation_message_ref:
  assumes "set_operation_message tj od operation reg = Inr od'"
    and "resolvable_name operation reg = Inr (Some key)"
  shows "getitem od' ''message'' = Inr (ref_message key)"
  using assms unfolding set_operation_message_def
  by (auto split: sum.splits dest: getitem_setitem_same)

lemma set_operation_message_inline:
  assumes "set_operation_message tj od operation reg = Inr od'"
    and "resolvable_name operation reg = Inr None"
    and "inline_payload operation = Inr (Some payload)"
    and "getitem od ''message'' = Inr (PDict md)"
  shows "\<exists>schema. tj payload = Inr schema \<and>
           getitem od' ''message'' =
             Inr (PDict (dict_setitem ''payload'' schema (dict_pop ''contentType'' md)))"
  using assms unfolding set_operation_message_def
  by (auto split: sum.splits dest: getitem_setitem_same)

lemma set_channel_operation_other:
  "set_channel_operation tj reg op d ch = Inr d' \<Longrightarrow> k \<noteq> op \<Longrightarrow> map_of d' k = map_of d k"
  unfolding set_channel_operation_def
  by (auto split: option.splits sum.splits simp: map_of_dict_setitem)

lemma set_channel_operation_same:
  assumes "set_channel_operation tj reg op d ch = Inr d'"
    and "map_of d op = Some od" and "getattr ch op = Inr operation"
  shows "\<exists>od'. set_operation_message tj od operation reg = Inr od' \<and> map_of d' op = Some od'"
  using assms unfolding set_channel_operation_def
  by (auto split: sum.splits simp: map_of_dict_setitem)

lemma set_channel_operation:
  assumes "set_channel tj reg (PDict d) ch = Inr cd'"
    and "op = ''subscribe'' \<or> op = ''publish''"
    and "map_of d op = Some od" and "getattr ch op = Inr operation"
  shows "\<exists>od'. set_operation_message tj od operation reg = Inr od' \<and> getitem cd' op = Inr od'"
proof -
  from assms(1) obtain d1 d2 where
    a: "set_channel_operation tj reg ''subscribe'' (dict_pop ''name'' d) ch = Inr d1" and
    b: "set_channel_operation tj reg ''publish'' d1 ch = Inr d2" and
    c: "cd' = PDict d2"
    by (auto split: sum.splits)
  have d0: "map_of (dict_pop ''name'' d) op = Some od"
    using assms(2,3) by (auto simp: map_of_dict_pop)
  show ?thesis
  proof (cases "op = ''subscribe''")
    case True
    from set_channel_operation_same [OF a d0 [unfolded True] assms(4) [unfolded True]]
    obtain od' where
      o: "set_operation_message tj od operation reg = Inr od'" and
      m: "map_of d1 ''subscribe'' = Some od'" by blast
    have "map_of d2 ''subscribe'' = Some od'"
      using set_channel_operation_other [OF b, of "''subscribe''"] m by simp
    then show ?thesis using o c True by simp
  next
    case False
    then have op: "op = ''publish''" using assms(2) by simp
    have "map_of d1 ''publish'' = Some od"
      using set_channel_operation_other [OF a, of "''publish''"] d0 op by simp
    from set_channel_operation_same [OF b this assms(4) [unfolded op]]
    obtain od' where
      o: "set_operation_message tj od operation reg = Inr od'" and
      m: "map_of d2 ''publish'' = Some od'" by blast
    then show ?thesis using c op by simp
  qed
qed

lemma map_prod_id_entries: "map (map_prod id f) xs = map (\<lambda>p. (fst p, f (snd p))) xs"
  by (induction xs) auto

lemma channels_zip_entry:
  "channels_zip tj reg (map (\<lambda>p. (fst p, f (snd p))) chans) (map snd chans) = Inr cds' \<Longrightarrow>
   distinct (map fst chans) \<Longrightarrow> (c, ch) \<in> set chans \<Longrightarrow>
   \<exists>cd'. set_channel tj reg (f ch) ch = Inr cd' \<and> map_of cds' c = Some cd'"
proof (induction chans arbitrary: cds')
  case Nil
  then show ?case by simp
next
  case (Cons p chans)
  obtain k x where p: "p = (k, x)" by (cases p)
  from Cons.prems(1) p obtain cd1 rest' where
    a: "set_channel tj reg (f x) x = Inr cd1" and
    b: "channels_zip tj reg (map (\<lambda>p. (fst p, f (snd p))) chans) (map snd chans) = Inr rest'" and
    c: "cds' = (k, cd1) # rest'"
    by (auto split: sum.splits)
  show ?case
  proof (cases "(c, ch) = (k, x)")
    case True
    then show ?thesis using a c by simp
  next
    case False
    then have mem: "(c, ch) \<in> set chans" using Cons.prems(3) p by auto
    have dist: "distinct (map fst chans)" using Cons.prems(2) by simp
    have "c \<noteq> k" using Cons.prems(2) p mem by force
    then show ?thesis using Cons.IH [OF b dist mem] c by simp
  qed
qed

text \<open>What compilation leaves under \<^verbatim>\<open>channels.<c>.<op>\<close>, for an operation that is set.\<close>

lemma compiled_operation:
  assumes "distinct (field_keys fs)"
    and "map_of fs ''channels'' = Some (PDict channels)" and "distinct (map fst channels)"
    and "(c, PData cfs) \<in> set channels" and "distinct (field_keys cfs)"
    and "op = ''subscribe'' \<or> op = ''publish''"
    and "map_of cfs op = Some (PData ofs)"
    and "json_spec_messages tj (PData fs) = Inr reg"
    and "spec_asjson tj (PData fs) = Inr doc"
  shows "\<exists>cs ch od. getitem doc ''channels'' = Inr cs \<and> getitem cs c = Inr ch \<and>
           getitem ch op = Inr od \<and>
           set_operation_message tj (u_spec_asjson (PData ofs)) (PData ofs) reg = Inr od"
proof -
  from spec_asjson_Inr [OF assms(9)] obtain entries' js' reg' cds cs cds' where
    m: "spec_messages_dict (PData fs) = Inr (PDict entries')" and
    l: "messages_loop tj entries' (u_spec_asjson (PData fs)) [] = Inr (js', reg')" and
    c1: "getitem (u_spec_asjson (PData fs)) ''channels'' = Inr (PDict cds)" and
    c2: "getattr (PData fs) ''channels'' = Inr (PDict cs)" and
    c3: "channels_zip tj reg' cds (map snd cs) = Inr cds'" and
    c4: "getitem doc ''channels'' = Inr (PDict cds')"
    by blast
  have reg: "reg' = reg" using m l assms(8) by (simp add: json_spec_messages_def)
  have cs: "cs = channels" using c2 assms(2) by simp
  have cds: "cds = map (map_prod id u_spec_asjson) channels"
    using dict_field [OF assms(1,2,3)] c1 by (simp add: as_camel_case_keys)
  from channels_zip_entry [OF c3 [unfolded cds cs reg map_prod_id_entries] assms(3,4)]
  obtain cd' where
    sc: "set_channel tj reg (u_spec_asjson (PData cfs)) (PData cfs) = Inr cd'" and
    look: "map_of cds' c = Some cd'" by blast
  obtain d where d: "u_spec_asjson (PData cfs) = PDict d" by simp
  have camel: "as_camel_case op = op" using assms(6) by (auto simp: as_camel_case_keys)
  have "getitem (u_spec_asjson (PData cfs)) (as_camel_case op) = Inr (u_spec_asjson (PData ofs))"
    by (rule getitem_field [OF assms(5,7)]) simp_all
  then have od: "map_of d op = Some (u_spec_asjson (PData ofs))"
    unfolding camel d by (simp split: option.splits)
  have ga: "getattr (PData cfs) op = Inr (PData ofs)" using assms(7) by simp
  from set_channel_operation [OF sc [unfolded d] assms(6) od ga] obtain od' where
    "set_operation_message tj (u_spec_asjson (PData ofs)) (PData ofs) reg = Inr od'" and
    "getitem cd' op = Inr od'" by blast
  then show ?thesis using c4 look by simp
qed

section \<open>A well-formed specification compiles\<close>

lemma set_message_payload_succeeds:
  assumes "message_dict js k"
  shows "\<exists>js'. set_message_payload js k schema = Inr js' \<and>
           (\<forall>k'. message_dict js k' \<longrightarrow> message_dict js' k')"
proof -
  from assms obtain j c ms d where
    js: "js = PDict j" and jc: "map_of j ''components'' = Some (PDict c)" and
    cm: "map_of c ''messages'' = Some (PDict ms)" and mk: "map_of ms k = Some (PDict d)"
    unfolding message_dict_def
    by (auto simp: getitem_Inr split: sum.splits pyval.splits)
  let ?ms' = "dict_setitem k (PDict (dict_setitem ''payload'' schema d)) ms"
  let ?js' = "PDict (dict_setitem ''components''
                 (PDict (dict_setitem ''messages'' (PDict ?ms') c)) j)"
  have run: "set_message_payload js k schema = Inr ?js'"
    using js jc cm mk by (simp add: set_message_payload_def)
  have keep: "message_dict ?js' k'" if "message_dict js k'" for k'
  proof -
    from that js jc cm obtain d' where "map_of ms k' = Some (PDict d')"
      unfolding message_dict_def by (auto split: option.splits pyval.splits)
    then show ?thesis
      unfolding message_dict_def by (simp add: map_of_dict_setitem)
  qed
  show ?thesis using run keep by blast
qed

lemma wf_message_attrs:
  assumes "wf_message m"
  shows "\<exists>mfs n p. m = PData mfs \<and> map_of mfs ''name'' = Some n \<and> wf_name n \<and>
           map_of mfs ''payload'' = Some p"
  using assms by (cases m) (auto split: option.splits)

lemma wf_name_hashable: "wf_name n \<Longrightarrow> hashable n"
  by (cases n) auto

lemma messages_loop_succeeds:
  assumes "\<forall>p. \<exists>s. tj p = Inr s"
  shows "list_all wf_message (map snd entries) \<Longrightarrow>
         \<forall>k \<in> fst ` set entries. message_dict js k \<Longrightarrow>
         \<exists>js' reg'. messages_loop tj entries js reg = Inr (js', reg')"
proof (induction entries arbitrary: js reg)
  case Nil
  then show ?case by simp
next
  case (Cons e entries)
  obtain k m where e: "e = (k, m)" by (cases e)
  from Cons.prems(1) e have wm: "wf_message m" and
    rest: "list_all wf_message (map snd entries)" by simp_all
  from wf_message_attrs [OF wm] obtain mfs n p where
    m: "m = PData mfs" and n: "map_of mfs ''name'' = Some n" and wn: "wf_name n" and
    p: "map_of mfs ''payload'' = Some p" by blast
  show ?case
  proof (cases "truthy p")
    case False
    have "\<forall>k \<in> fst ` set entries. message_dict js k" using Cons.prems(2) by simp
    from Cons.IH [OF rest this, of reg] show ?thesis using e m p False by simp
  next
    case True
    obtain schema where s: "tj p = Inr schema" using assms by blast
    have "message_dict js k" using Cons.prems(2) e by simp
    from set_message_payload_succeeds [OF this, of schema] obtain js1 where
      run: "set_message_payload js k schema = Inr js1" and
      keep: "\<forall>k'. message_dict js k' \<longrightarrow> message_dict js1 k'" by blast
    have inv: "\<forall>k \<in> fst ` set entries. message_dict js1 k" using Cons.prems(2) keep by simp
    show ?thesis
    proof (cases "truthy n")
      case False
      from Cons.IH [OF rest inv, of reg] show ?thesis
        using e m p n True s run False by simp
    next
      case tn: True
      from Cons.IH [OF rest inv, of "dict_setitem n k reg"] show ?thesis
        using e m p n True s run tn wf_name_hashable [OF wn] by simp
    qed
  qed
qed

lemma pop_names_succeeds:
  "list_all wf_server (map snd servers) \<Longrightarrow>
   \<exists>ss'. pop_names (map (\<lambda>p. (fst p, u_spec_asjson (snd p))) servers) = Inr ss'"
proof (induction servers)
  case Nil
  then show ?case by simp
next
  case (Cons e servers)
  obtain k server where e: "e = (k, server)" by (cases e)
  from Cons.prems e obtain sfs where "server = PData sfs" by (cases server) auto
  moreover from Cons obtain ss' where
    "pop_names (map (\<lambda>p. (fst p, u_spec_asjson (snd p))) servers) = Inr ss'" by auto
  ultimately show ?case using e by simp
qed

section \<open>Operations of a well-formed channel\<close>

lemma set_operation_message_succeeds:
  assumes "\<forall>p. \<exists>s. tj p = Inr s"
    and "distinct (field_keys ofs)" and "map_of ofs ''message'' = Some m" and "wf_message m"
  shows "\<exists>od'. set_operation_message tj (u_spec_asjson (PData ofs)) (PData ofs) reg = Inr od'"
proof -
  from wf_message_attrs [OF assms(4)] obtain mfs n p where
    m: "m = PData mfs" and n: "map_of mfs ''name'' = Some n" and wn: "wf_name n" and
    p: "map_of mfs ''payload'' = Some p" by blast
  obtain od where od: "u_spec_asjson (PData ofs) = PDict od" by simp
  obtain md where md: "u_spec_asjson (PData mfs) = PDict md" by simp
  have "getitem (u_spec_asjson (PData ofs)) (as_camel_case ''message'') =
          Inr (u_spec_asjson (PData mfs))"
    by (rule getitem_field [OF assms(2) assms(3) [unfolded m]]) simp_all
  then have gm: "getitem (PDict od) ''message'' = Inr (PDict md)"
    unfolding od md by (simp only: as_camel_case_keys)
  obtain schema where s: "tj p = Inr schema" using assms(1) by blast
  have om: "operation_message (PData ofs) = Inr (Some m)"
    using assms(3) m by (simp add: operation_message_def)
  have rn: "resolvable_name (PData ofs) reg =
              Inr (if truthy n then map_of reg n else None)"
    using om m n wf_name_hashable [OF wn] by (simp add: resolvable_name_def)
  have ip: "inline_payload (PData ofs) = Inr (if truthy p then Some p else None)"
    using om m p by (simp add: inline_payload_def)
  show ?thesis
    unfolding od set_operation_message_def gm
    using rn [unfolded od] ip [unfolded od] s
    by (simp split: option.splits)
qed

lemma absent_field:
  assumes "distinct (field_keys fs)" and "map_of fs n = Some PNone"
  shows "getitem (u_spec_asjson (PData fs)) (as_camel_case n) = Inl KeyError"
proof -
  have "(n, PNone) \<in> set (map (map_prod id u_spec_asjson) fs)"
    using map_of_SomeD [OF assms(2)] by force
  then have "map_of (fold store_field (map (map_prod id u_spec_asjson) fs) []) (as_camel_case n)
               = None"
    by (rule fold_store_field_omitted) (use assms(1) in simp_all)
  then show ?thesis by simp
qed

lemma set_channel_operation_succeeds:
  assumes "\<forall>p. \<exists>s. tj p = Inr s"
    and "distinct (field_keys cfs)" and "op = ''subscribe'' \<or> op = ''publish''"
    and "map_of cfs op = Some operation" and "wf_operation operation"
    and "getitem (PDict d) op = getitem (u_spec_asjson (PData cfs)) op"
  shows "\<exists>d'. set_channel_operation tj reg op d (PData cfs) = Inr d'"
proof -
  have camel: "as_camel_case op = op" using assms(3) by (auto simp: as_camel_case_keys)
  consider "operation = PNone" | ofs where "operation = PData ofs"
    using assms(5) by (cases operation) auto
  then show ?thesis
  proof cases
    case 1
    have "getitem (PDict d) op = Inl KeyError"
      using absent_field [OF assms(2) assms(4) [unfolded 1]] assms(6) camel by simp
    then have "map_of d op = None" by (simp split: option.splits)
    then show ?thesis by (simp add: set_channel_operation_def)
  next
    case 2
    from assms(5) 2 obtain m where
      dist: "distinct (field_keys ofs)" and m: "map_of ofs ''message'' = Some m" and
      wm: "wf_message m" by (auto split: option.splits)
    have "getitem (u_spec_asjson (PData cfs)) (as_camel_case op) = Inr (u_spec_asjson (PData ofs))"
      by (rule getitem_field [OF assms(2) assms(4) [unfolded 2]]) simp_all
    then have look: "map_of d op = Some (u_spec_asjson (PData ofs))"
      using assms(6) camel by (simp split: option.splits)
    from set_operation_message_succeeds [OF assms(1) dist m wm, of reg] obtain od' where
      "set_operation_message tj (u_spec_asjson (PData ofs)) (PData ofs) reg = Inr od'" by blast
    then show ?thesis
      using look assms(4) 2 by (simp add: set_channel_operation_def)
  qed
qed

lemma set_channel_succeeds:
  assumes "\<forall>p. \<exists>s. tj p = Inr s" and "wf_channel channel"
  shows "\<exists>cd'. set_channel tj reg (u_spec_asjson channel) channel = Inr cd'"
proof -
  from assms(2) obtain cfs sub pub where
    ch: "channel = PData cfs" and dist: "distinct (field_keys cfs)" and
    sub: "map_of cfs ''subscribe'' = Some sub" "wf_operation sub" and
    pub: "map_of cfs ''publish'' = Some pub" "wf_operation pub"
    by (cases channel) (auto split: option.splits)
  obtain d where d: "u_spec_asjson (PData cfs) = PDict d" by simp
  have "getitem (PDict (dict_pop ''name'' d)) ''subscribe'' =
          getitem (u_spec_asjson (PData cfs)) ''subscribe''"
    unfolding d by (simp add: map_of_dict_pop)
  from set_channel_operation_succeeds [OF assms(1) dist _ sub this, of reg] obtain d1 where
    s1: "set_channel_operation tj reg ''subscribe'' (dict_pop ''name'' d) (PData cfs) = Inr d1"
    by auto
  have "map_of d1 ''publish'' = map_of (dict_pop ''name'' d) ''publish''"
    by (rule set_channel_operation_other [OF s1]) simp
  then have "getitem (PDict d1) ''publish'' = getitem (u_spec_asjson (PData cfs)) ''publish''"
    unfolding d by (simp add: map_of_dict_pop)
  from set_channel_operation_succeeds [OF assms(1) dist _ pub this, of reg] obtain d2 where
    s2: "set_channel_operation tj reg ''publish'' d1 (PData cfs) = Inr d2"
    by auto
  show ?thesis unfolding ch d using s1 s2 by simp
qed

lemma channels_zip_succeeds:
  assumes "\<forall>p. \<exists>s. tj p = Inr s"
  shows "list_all wf_channel (map snd channels) \<Longrightarrow>
         \<exists>cds'. channels_zip tj reg (map (\<lambda>p. (fst p, u_spec_asjson (snd p))) channels)
                  (map snd channels) = Inr cds'"
proof (induction channels)
  case Nil
  then show ?case by simp
next
  case (Cons e channels)
  obtain k channel where e: "e = (k, channel)" by (cases e)
  from Cons.prems e have "wf_channel channel" by simp
  from set_channel_succeeds [OF assms this, of reg] obtain cd' where
    "set_channel tj reg (u_spec_asjson channel) channel = Inr cd'" by blast
  moreover from Cons obtain cds' where
    "channels_zip tj reg (map (\<lambda>p. (fst p, u_spec_asjson (snd p))) channels)
       (map snd channels) = Inr cds'" by auto
  ultimately show ?case using e by simp
qed

section \<open>Compilation of a well-formed specification\<close>

lemma map_of_entries:
  "map_of (map (\<lambda>p. (fst p, f (snd p))) xs) k = map_option f (map_of xs k)"
  by (induction xs) auto

lemma wf_messages_dict:
  assumes "wf_spec (PData fs)"
  shows "\<exists>entries. spec_messages_dict (PData fs) = Inr (PDict entries) \<and>
           list_all wf_message (map snd entries) \<and>
           (\<forall>k \<in> fst ` set entries. message_dict (u_spec_asjson (PData fs)) k)"
proof -
  from assms obtain components where
    dist: "distinct (field_keys fs)" and
    c: "map_of fs ''components'' = Some components" and wc: "wf_components components"
    by (auto split: option.splits)
  consider "components = PNone" | cfs where "components = PData cfs"
    using wc by (cases components) auto
  then show ?thesis
  proof cases
    case 1
    then have "spec_messages_dict (PData fs) = Inr (PDict [])"
      using c by (simp add: spec_messages_dict_def)
    then show ?thesis by simp
  next
    case 2
    from wc 2 obtain messages where
      cdist: "distinct (field_keys cfs)" and
      ms: "map_of cfs ''messages'' = Some messages" and wm: "wf_messages messages"
      by (auto split: option.splits)
    consider "messages = PNone" | es where "messages = PDict es"
      using wm by (cases messages) auto
    then show ?thesis
    proof cases
      case 1
      then have "spec_messages_dict (PData fs) = Inr (PDict [])"
        using c 2 ms by (simp add: spec_messages_dict_def)
      then show ?thesis by simp
    next
      case es: 2
      have run: "spec_messages_dict (PData fs) = Inr (PDict es)"
        using c 2 ms es by (simp add: spec_messages_dict_def)
      from wm es have edist: "distinct (map fst es)" and
        wes: "list_all wf_message (map snd es)" by simp_all
      have g1: "getitem (u_spec_asjson (PData fs)) ''components'' =
                  Inr (u_spec_asjson (PData cfs))"
        using getitem_field [OF dist c [unfolded 2]] by (simp add: as_camel_case_keys)
      have g2: "getitem (u_spec_asjson (PData cfs)) ''messages'' =
                  Inr (PDict (map (\<lambda>p. (fst p, u_spec_asjson (snd p))) es))"
        using dict_field [OF cdist ms [unfolded es] edist]
        by (simp only: as_camel_case_keys map_prod_id_entries)
      have "message_dict (u_spec_asjson (PData fs)) k" if "k \<in> fst ` set es" for k
      proof -
        from that obtain m where mem: "(k, m) \<in> set es" by auto
        then have look: "map_of es k = Some m" using edist by simp
        have "wf_message m" using wes mem by (auto simp: list_all_iff)
        then obtain mfs where "m = PData mfs" by (cases m) auto
        then show ?thesis
          unfolding message_dict_def g1 using g2 look by (simp add: map_of_entries)
      qed
      then show ?thesis using run wes by blast
    qed
  qed
qed

lemma compile_succeeds:
  assumes "\<forall>p. \<exists>s. tj p = Inr s" and "wf_spec spec"
  shows "\<exists>doc. spec_asjson tj spec = Inr doc"
proof -
  from assms(2) obtain fs where spec: "spec = PData fs" by (cases spec) auto
  from assms(2) spec obtain servers channels where
    dist: "distinct (field_keys fs)" and
    s: "map_of fs ''servers'' = Some servers" and ws: "wf_servers servers" and
    c: "map_of fs ''channels'' = Some channels" and wc: "wf_channels channels"
    by (auto split: option.splits)
  from ws obtain ss where ss: "servers = PDict ss" and sdist: "distinct (map fst ss)" and
    wss: "list_all wf_server (map snd ss)" by (cases servers) auto
  from wc obtain cs where cs: "channels = PDict cs" and cdist: "distinct (map fst cs)" and
    wcs: "list_all wf_channel (map snd cs)" by (cases channels) auto
  let ?js0 = "u_spec_asjson (PData fs)"
  from wf_messages_dict [OF assms(2) [unfolded spec]] obtain entries where
    m1: "spec_messages_dict (PData fs) = Inr (PDict entries)" and
    m2: "list_all wf_message (map snd entries)" and
    m3: "\<forall>k \<in> fst ` set entries. message_dict ?js0 k" by blast
  from messages_loop_succeeds [OF assms(1) m2 m3, of "[]"] obtain js1 reg where
    l: "messages_loop tj entries ?js0 [] = Inr (js1, reg)" by blast
  have g0s: "getitem ?js0 ''servers'' = Inr (PDict (map (\<lambda>p. (fst p, u_spec_asjson (snd p))) ss))"
    using dict_field [OF dist s [unfolded ss] sdist]
    by (simp only: as_camel_case_keys map_prod_id_entries)
  have g0c: "getitem ?js0 ''channels'' = Inr (PDict (map (\<lambda>p. (fst p, u_spec_asjson (snd p))) cs))"
    using dict_field [OF dist c [unfolded cs] cdist]
    by (simp only: as_camel_case_keys map_prod_id_entries)
  have g1s: "getitem js1 ''servers'' = Inr (PDict (map (\<lambda>p. (fst p, u_spec_asjson (snd p))) ss))"
    using messages_loop_other [OF l, of "''servers''"] g0s by simp
  have g1c: "getitem js1 ''channels'' = Inr (PDict (map (\<lambda>p. (fst p, u_spec_asjson (snd p))) cs))"
    using messages_loop_other [OF l, of "''channels''"] g0c by simp
  from g1s obtain j1 where j1: "js1 = PDict j1" by (auto simp: getitem_Inr)
  from pop_names_succeeds [OF wss] obtain ss' where
    p: "pop_names (map (\<lambda>p. (fst p, u_spec_asjson (snd p))) ss) = Inr ss'" by blast
  have sl: "servers_loop js1 = Inr (PDict (dict_setitem ''servers'' (PDict ss') j1))"
    unfolding servers_loop_def g1s using p j1 by simp
  have g2c: "getitem (PDict (dict_setitem ''servers'' (PDict ss') j1)) ''channels'' =
               Inr (PDict (map (\<lambda>p. (fst p, u_spec_asjson (snd p))) cs))"
    using g1c j1 by (simp add: map_of_dict_setitem)
  from channels_zip_succeeds [OF assms(1) wcs, of reg] obtain cds' where
    z: "channels_zip tj reg (map (\<lambda>p. (fst p, u_spec_asjson (snd p))) cs) (map snd cs) = Inr cds'"
    by blast
  have cl: "\<exists>doc. channels_loop tj reg (PDict (dict_setitem ''servers'' (PDict ss') j1)) (PData fs)
              = Inr doc"
    unfolding channels_loop_def g2c using z c cs by (simp add: dict_values_def)
  show ?thesis
    unfolding spec spec_asjson_def m1 using l sl cl by simp
qed

section \<open>The name registry\<close>

lemma messages_loop_append:
  "messages_loop tj (xs @ ys) js reg0 = Inr (js', reg) \<Longrightarrow>
   \<exists>js1 reg1. messages_loop tj xs js reg0 = Inr (js1, reg1) \<and>
              messages_loop tj ys js1 reg1 = Inr (js', reg)"
proof (induction tj xs js reg0 rule: messages_loop.induct)
  case (1 tj js reg0)
  then show ?case by simp
next
  case (2 tj mn mt rest js reg0)
  show ?case
  proof (cases "getattr mt ''payload''")
    case (Inl e)
    then show ?thesis using "2.prems" by simp
  next
    case (Inr payload)
    show ?thesis
    proof (cases "truthy payload")
      case False
      then show ?thesis using "2.IH"(1) [OF Inr] "2.prems" Inr by simp
    next
      case True
      from "2.prems" Inr True obtain schema js1 name where
        s: "tj payload = Inr schema" and
        p: "set_message_payload js mn schema = Inr js1" and
        n: "getattr mt ''name'' = Inr name"
        by (auto split: sum.splits)
      show ?thesis
      proof (cases "truthy name")
        case False
        then show ?thesis
          using "2.IH"(2) [OF Inr _ s p n] "2.prems" Inr True s p n by simp
      next
        case tn: True
        then have h: "hashable name" using "2.prems" Inr True s p n by (auto split: if_splits)
        show ?thesis
          using "2.IH"(3) [OF Inr _ s p n] "2.prems" Inr True s p n tn h by simp
      qed
    qed
  qed
qed

lemma messages_loop_keeps:
  "messages_loop tj es js reg1 = Inr (js', reg) \<Longrightarrow>
   \<forall>(k, m) \<in> set es. \<not> declares m n \<Longrightarrow> map_of reg n = map_of reg1 n"
proof (induction tj es js reg1 rule: messages_loop.induct)
  case (1 tj js reg1)
  then show ?case by simp
next
  case (2 tj mn mt rest js reg1)
  have nd: "\<not> declares mt n" and rest: "\<forall>(k, m) \<in> set rest. \<not> declares m n"
    using "2.prems"(2) by simp_all
  show ?case
  proof (cases "getattr mt ''payload''")
    case (Inl e)
    then show ?thesis using "2.prems" by simp
  next
    case (Inr payload)
    show ?thesis
    proof (cases "truthy payload")
      case False
      then show ?thesis using "2.IH"(1) [OF Inr] "2.prems"(1) rest Inr by simp
    next
      case True
      from "2.prems"(1) Inr True obtain schema js1 name where
        s: "tj payload = Inr schema" and
        p: "set_message_payload js mn schema = Inr js1" and
        nm: "getattr mt ''name'' = Inr name"
        by (auto split: sum.splits)
      show ?thesis
      proof (cases "truthy name")
        case False
        then show ?thesis
          using "2.IH"(2) [OF Inr _ s p nm] "2.prems"(1) rest Inr True s p nm by simp
      next
        case tn: True
        then have h: "hashable name" using "2.prems"(1) Inr True s p nm by (auto split: if_splits)
        have "name \<noteq> n" using nd Inr True nm tn by (auto simp: declares_def)
        moreover have "map_of reg n = map_of (dict_setitem name mn reg1) n"
          using "2.IH"(3) [OF Inr _ s p nm] "2.prems"(1) rest Inr True s p nm tn h by simp
        ultimately show ?thesis by (simp add: map_of_dict_setitem)
      qed
    qed
  qed
qed

lemma messages_loop_grows:
  "messages_loop tj es js reg1 = Inr (js', reg) \<Longrightarrow> map_of reg1 n \<noteq> None \<Longrightarrow>
   map_of reg n \<noteq> None"
proof (induction tj es js reg1 rule: messages_loop.induct)
  case (1 tj js reg1)
  then show ?case by simp
next
  case (2 tj mn mt rest js reg1)
  show ?case
  proof (cases "getattr mt ''payload''")
    case (Inl e)
    then show ?thesis using "2.prems" by simp
  next
    case (Inr payload)
    show ?thesis
    proof (cases "truthy payload")
      case False
      then show ?thesis using "2.IH"(1) [OF Inr] "2.prems" Inr by simp
    next
      case True
      from "2.prems"(1) Inr True obtain schema js1 name where
        s: "tj payload = Inr schema" and
        p: "set_message_payload js mn schema = Inr js1" and
        nm: "getattr mt ''name'' = Inr name"
        by (auto split: sum.splits)
      show ?thesis
      proof (cases "truthy name")
        case False
        then show ?thesis
          using "2.IH"(2) [OF Inr _ s p nm] "2.prems" Inr True s p nm by simp
      next
        case tn: True
        then have h: "hashable name" using "2.prems"(1) Inr True s p nm by (auto split: if_splits)
        have "map_of (dict_setitem name mn reg1) n \<noteq> None"
          using "2.prems"(2) by (simp add: map_of_dict_setitem)
        then show ?thesis
          using "2.IH"(3) [OF Inr _ s p nm] "2.prems"(1) Inr True s p nm tn h by simp
      qed
    qed
  qed
qed

lemma messages_loop_step:
  assumes "messages_loop tj ((key, m) # after) js reg1 = Inr (js', reg)" and "declares m n"
  shows "\<exists>js2. messages_loop tj after js2 (dict_setitem n key reg1) = Inr (js', reg)"
proof -
  from assms(2) obtain payload where
    p: "getattr m ''payload'' = Inr payload" "truthy payload" and
    nm: "getattr m ''name'' = Inr n" "truthy n"
    by (auto simp: declares_def split: sum.splits)
  from assms(1) p nm show ?thesis by (auto split: sum.splits if_splits)
qed

lemma registry_entry:
  assumes "messages_loop tj (before @ (key, m) # after) js reg0 = Inr (js', reg)"
    and "declares m n"
  shows "map_of reg n \<noteq> None"
    and "\<forall>(k, m') \<in> set after. \<not> declares m' n \<Longrightarrow> map_of reg n = Some key"
proof -
  from messages_loop_append [OF assms(1)] obtain js1 reg1 where
    "messages_loop tj ((key, m) # after) js1 reg1 = Inr (js', reg)" by blast
  from messages_loop_step [OF this assms(2)] obtain js2 where
    l: "messages_loop tj after js2 (dict_setitem n key reg1) = Inr (js', reg)" by blast
  have now: "map_of (dict_setitem n key reg1) n = Some key" by (simp add: map_of_dict_setitem)
  show "map_of reg n \<noteq> None" using messages_loop_grows [OF l, of n] now by simp
  show "map_of reg n = Some key" if "\<forall>(k, m') \<in> set after. \<not> declares m' n"
    using messages_loop_keeps [OF l that] now by simp
qed

section \<open>Name stripping\<close>

text \<open>
  C7 (name stripping). When a specification with a \<^verbatim>\<open>servers\<close> dict and a \<^verbatim>\<open>channels\<close> dict
  compiles, the document's \<^verbatim>\<open>servers\<close> and \<^verbatim>\<open>channels\<close> have the keys of the input in the
  same order, and every entry is a dict without the key \<^verbatim>\<open>name\<close>.
\<close>

theorem name_stripping:
  assumes "distinct (field_keys fs)"
    and "map_of fs ''servers'' = Some (PDict servers)" and "distinct (map fst servers)"
    and "map_of fs ''channels'' = Some (PDict channels)" and "distinct (map fst channels)"
    and "spec_asjson tj (PData fs) = Inr doc"
  shows "\<exists>ss cs. getitem doc ''servers'' = Inr (PDict ss) \<and> map fst ss = map fst servers \<and>
           (\<forall>(k, s) \<in> set ss. \<exists>d. s = PDict d \<and> ''name'' \<notin> fst ` set d) \<and>
           getitem doc ''channels'' = Inr (PDict cs) \<and> map fst cs = map fst channels \<and>
           (\<forall>(k, c) \<in> set cs. \<exists>d. c = PDict d \<and> ''name'' \<notin> fst ` set d)"
proof -
  from spec_asjson_Inr [OF assms(6)] obtain reg ss ss' cds cs cds' where
    s1: "getitem (u_spec_asjson (PData fs)) ''servers'' = Inr (PDict ss)" and
    s2: "pop_names ss = Inr ss'" and
    s3: "getitem doc ''servers'' = Inr (PDict ss')" and
    c1: "getitem (u_spec_asjson (PData fs)) ''channels'' = Inr (PDict cds)" and
    c2: "getattr (PData fs) ''channels'' = Inr (PDict cs)" and
    c3: "channels_zip tj reg cds (map snd cs) = Inr cds'" and
    c4: "getitem doc ''channels'' = Inr (PDict cds')"
    by blast
  have ss: "ss = map (map_prod id u_spec_asjson) servers"
    using dict_field [OF assms(1,2,3)] s1 by (simp add: as_camel_case_keys)
  have cs: "cs = channels" using c2 assms(4) by simp
  have cds: "cds = map (map_prod id u_spec_asjson) channels"
    using dict_field [OF assms(1,4,5)] c1 by (simp add: as_camel_case_keys)
  have "map fst ss' = map fst servers"
    using pop_names_Inr [OF s2] ss by (simp add: comp_def)
  moreover have "\<forall>(k, s) \<in> set ss'. \<exists>d. s = PDict d \<and> ''name'' \<notin> fst ` set d"
    using pop_names_Inr [OF s2] by blast
  moreover have "map fst cds' = map fst channels"
    using channels_zip_keys [OF c3] cds by (simp add: comp_def)
  moreover have "\<forall>(k, c) \<in> set cds'. \<exists>d. c = PDict d \<and> ''name'' \<notin> fst ` set d"
    using channels_zip_no_name [OF c3] cds cs by simp
  ultimately show ?thesis using s3 c4 by blast
qed

theorem name_stripping_witness:
  "distinct (field_keys orders_fields) \<and>
   map_of orders_fields ''servers'' =
     Some (PDict [(''dev'', PData [(''name'', PStr ''dev''), (''url'', PStr ''localhost'')])]) \<and>
   map_of orders_fields ''channels'' = Some (PDict [(''orders'', PData orders_channel_fields)]) \<and>
   spec_asjson object_schema (PData orders_fields) = Inr orders_doc \<and>
   (\<exists>ss cs. getitem orders_doc ''servers'' = Inr (PDict ss) \<and> map fst ss = [''dev''] \<and>
      (\<forall>(k, s) \<in> set ss. \<exists>d. s = PDict d \<and> ''name'' \<notin> fst ` set d) \<and>
      getitem orders_doc ''channels'' = Inr (PDict cs) \<and> map fst cs = [''orders''] \<and>
      (\<forall>(k, c) \<in> set cs. \<exists>d. c = PDict d \<and> ''name'' \<notin> fst ` set d))"
proof -
  have h1: "distinct (field_keys orders_fields)" by code_simp
  have h2: "map_of orders_fields ''servers'' =
     Some (PDict [(''dev'', PData [(''name'', PStr ''dev''), (''url'', PStr ''localhost'')])])"
    by code_simp
  have h3: "distinct (map fst [(''dev'', PData [(''name'', PStr ''dev''), (''url'', PStr ''localhost'')])])"
    by simp
  have h4: "map_of orders_fields ''channels'' = Some (PDict [(''orders'', PData orders_channel_fields)])"
    by code_simp
  have h5: "distinct (map fst [(''orders'', PData orders_channel_fields)])" by simp
  have h6: "spec_asjson object_schema (PData orders_fields) = Inr orders_doc" by code_simp
  show ?thesis using name_stripping [OF h1 h2 h3 h4 h5 h6] h1 h2 h4 h6 by simp
qed

section \<open>References and inlined payloads\<close>

lemma getpath_operation_message:
  assumes "getitem doc ''channels'' = Inr cs" and "getitem cs c = Inr ch"
    and "getitem ch op = Inr od" and "getitem od ''message'' = Inr v"
  shows "getpath doc [''channels'', c, op, ''message''] = Inr v"
  using assms by simp

lemma resolvable_name_found:
  assumes "map_of ofs ''message'' = Some (PData mfs)" and "map_of mfs ''name'' = Some (PStr N)"
    and "N \<noteq> []"
  shows "resolvable_name (PData ofs) reg = Inr (map_of reg (PStr N))"
  using assms by (simp add: resolvable_name_def operation_message_def)






lemma fold_store_field_keys:
  "fst ` set (fold store_field sfs acc) \<subseteq> fst ` set acc \<union> set (field_keys sfs)"
proof (induction sfs arbitrary: acc)
  case Nil
  then show ?case by simp
next
  case (Cons f sfs)
  have "fst ` set (store_field f acc) \<subseteq> fst ` set acc \<union> {as_camel_case (fst f)}"
    using arg_cong [OF keys_dict_setitem [of "as_camel_case (fst f)" "snd f" acc], of set]
    by (auto simp: store_field_def split: if_splits)
  moreover have "fst ` set (fold store_field sfs (store_field f acc))
      \<subseteq> fst ` set (store_field f acc) \<union> set (field_keys sfs)"
    by (rule Cons.IH)
  ultimately have "fst ` set (fold store_field sfs (store_field f acc))
      \<subseteq> fst ` set acc \<union> ({as_camel_case (fst f)} \<union> set (field_keys sfs))"
    by blast
  then show ?case by simp
qed

lemma serialized_keys:
  assumes "u_spec_asjson (PData fs) = PDict d"
  shows "fst ` set d \<subseteq> set (field_keys fs)"
  using fold_store_field_keys [of "map (map_prod id u_spec_asjson) fs" "[]"] assms by simp

lemma resolvable_name_none:
  assumes "map_of ofs ''message'' = Some (PData mfs)" and "map_of mfs ''name'' = Some name"
    and "wf_name name" and "\<not> truthy name \<or> map_of reg name = None"
  shows "resolvable_name (PData ofs) reg = Inr None"
  using assms wf_name_hashable [OF assms(3)]
  by (auto simp: resolvable_name_def operation_message_def)

lemma inline_payload_found:
  assumes "map_of ofs ''message'' = Some (PData mfs)" and "map_of mfs ''payload'' = Some payload"
    and "truthy payload"
  shows "inline_payload (PData ofs) = Inr (Some payload)"
  using assms by (simp add: inline_payload_def operation_message_def)

text \<open>
  C5 (fallback), as amended. In a compiled document, an operation whose message has a
  payload set and no resolvable declared name has as its message the serialized message
  without \<^verbatim>\<open>contentType\<close> and with \<^verbatim>\<open>payload\<close> set to the generated schema: \<^verbatim>\<open>payload\<close> is
  the schema, \<^verbatim>\<open>contentType\<close> is absent, every other key has its serialized value, and there
  is no \<^verbatim>\<open>$ref\<close>.
\<close>

theorem fallback_correctness:
  assumes "distinct (field_keys fs)"
    and "map_of fs ''channels'' = Some (PDict channels)" and "distinct (map fst channels)"
    and "(c, PData cfs) \<in> set channels" and "distinct (field_keys cfs)"
    and "op = ''subscribe'' \<or> op = ''publish''"
    and "map_of cfs op = Some (PData ofs)" and "distinct (field_keys ofs)"
    and "map_of ofs ''message'' = Some (PData mfs)" and "''$ref'' \<notin> set (field_keys mfs)"
    and "map_of mfs ''name'' = Some name" and "wf_name name"
    and "json_spec_messages tj (PData fs) = Inr reg"
    and "\<not> truthy name \<or> map_of reg name = None"
    and "map_of mfs ''payload'' = Some payload" and "truthy payload"
    and "spec_asjson tj (PData fs) = Inr doc"
  shows "\<exists>schema md m. tj payload = Inr schema \<and> u_spec_asjson (PData mfs) = PDict md \<and>
           getpath doc [''channels'', c, op, ''message''] = Inr (PDict m) \<and>
           m = dict_setitem ''payload'' schema (dict_pop ''contentType'' md) \<and>
           map_of m ''payload'' = Some schema \<and>
           ''contentType'' \<notin> fst ` set m \<and>
           (\<forall>k. k \<noteq> ''payload'' \<and> k \<noteq> ''contentType'' \<longrightarrow> map_of m k = map_of md k) \<and>
           ''$ref'' \<notin> fst ` set m"
proof -
  from compiled_operation [OF assms(1-7) assms(13) assms(17)] obtain cs ch od where
    path: "getitem doc ''channels'' = Inr cs" "getitem cs c = Inr ch" "getitem ch op = Inr od" and
    run: "set_operation_message tj (u_spec_asjson (PData ofs)) (PData ofs) reg = Inr od"
    by blast
  obtain md where md: "u_spec_asjson (PData mfs) = PDict md" by simp
  have "getitem (u_spec_asjson (PData ofs)) (as_camel_case ''message'') =
          Inr (u_spec_asjson (PData mfs))"
    by (rule getitem_field [OF assms(8,9)]) simp_all
  then have gm: "getitem (u_spec_asjson (PData ofs)) ''message'' = Inr (PDict md)"
    unfolding md by (simp only: as_camel_case_keys)
  from set_operation_message_inline [OF run
      resolvable_name_none [OF assms(9,11,12,14)] inline_payload_found [OF assms(9,15,16)] gm]
  obtain schema where s: "tj payload = Inr schema" and
    g: "getitem od ''message'' =
          Inr (PDict (dict_setitem ''payload'' schema (dict_pop ''contentType'' md)))"
    by blast
  let ?m = "dict_setitem ''payload'' schema (dict_pop ''contentType'' md)"
  have p: "getpath doc [''channels'', c, op, ''message''] = Inr (PDict ?m)"
    by (rule getpath_operation_message [OF path g])
  have k1: "map_of ?m ''payload'' = Some schema" by (simp add: map_of_dict_setitem)
  have look: "map_of ?m k = map_of md k" if "k \<noteq> ''payload'' \<and> k \<noteq> ''contentType''" for k
    using that by (simp add: map_of_dict_setitem map_of_dict_pop)
  have "map_of ?m ''contentType'' = None"
    by (simp add: map_of_dict_setitem map_of_dict_pop)
  then have k2: "''contentType'' \<notin> fst ` set ?m"
    using map_of_eq_None_iff [of ?m "''contentType''"] by blast
  have "''$ref'' \<notin> fst ` set md" using serialized_keys [OF md] assms(10) by blast
  then have "map_of md ''$ref'' = None"
    using map_of_eq_None_iff [of md "''$ref''"] by blast
  then have "map_of ?m ''$ref'' = None" by (simp add: map_of_dict_setitem map_of_dict_pop)
  then have k3: "''$ref'' \<notin> fst ` set ?m"
    using map_of_eq_None_iff [of ?m "''$ref''"] by blast
  show ?thesis using s md p k1 k2 look k3 by blast
qed

theorem fallback_correctness_witness:
  "distinct (field_keys orders_fields) \<and>
   map_of orders_fields ''channels'' = Some (PDict [(''orders'', PData orders_channel_fields)]) \<and>
   distinct (field_keys orders_channel_fields) \<and>
   map_of orders_channel_fields ''subscribe'' =
     Some (PData [(''operation_id'', PStr ''ack''), (''message'', unnamed_message)]) \<and>
   unnamed_message = PData [(''name'', PNone), (''payload'', PObj ''Ack''),
     (''content_type'', PStr ''application/json'')] \<and>
   json_spec_messages object_schema (PData orders_fields) =
     Inr [(PStr ''OrderCreated'', ''order-created'')] \<and>
   spec_asjson object_schema (PData orders_fields) = Inr orders_doc \<and>
   (\<exists>schema md m. object_schema (PObj ''Ack'') = Inr schema \<and>
      u_spec_asjson unnamed_message = PDict md \<and>
      getpath orders_doc [''channels'', ''orders'', ''subscribe'', ''message''] = Inr (PDict m) \<and>
      m = dict_setitem ''payload'' schema (dict_pop ''contentType'' md) \<and>
      map_of m ''payload'' = Some schema \<and>
      ''contentType'' \<notin> fst ` set m \<and>
      (\<forall>k. k \<noteq> ''payload'' \<and> k \<noteq> ''contentType'' \<longrightarrow> map_of m k = map_of md k) \<and>
      ''$ref'' \<notin> fst ` set m)"
proof -
  let ?ofs = "[(''operation_id'', PStr ''ack''), (''message'', unnamed_message)]"
  let ?mfs = "[(''name'', PNone), (''payload'', PObj ''Ack''),
     (''content_type'', PStr ''application/json'')]"
  let ?reg = "[(PStr ''OrderCreated'', ''order-created'')]"
  have h1: "distinct (field_keys orders_fields)" by code_simp
  have h2: "map_of orders_fields ''channels'' = Some (PDict [(''orders'', PData orders_channel_fields)])"
    by code_simp
  have h3: "distinct (map fst [(''orders'', PData orders_channel_fields)])" by simp
  have h4: "(''orders'', PData orders_channel_fields) \<in> set [(''orders'', PData orders_channel_fields)]"
    by simp
  have h5: "distinct (field_keys orders_channel_fields)" by code_simp
  have h6: "''subscribe'' = ''subscribe'' \<or> ''subscribe'' = ''publish''" by simp
  have h7: "map_of orders_channel_fields ''subscribe'' = Some (PData ?ofs)" by code_simp
  have h8: "distinct (field_keys ?ofs)" by code_simp
  have um: "unnamed_message = PData ?mfs" by code_simp
  have h9: "map_of ?ofs ''message'' = Some (PData ?mfs)" by code_simp
  have h10: "''$ref'' \<notin> set (field_keys ?mfs)" by code_simp
  have h11: "map_of ?mfs ''name'' = Some PNone" by simp
  have h12: "wf_name PNone" by simp
  have h13: "json_spec_messages object_schema (PData orders_fields) = Inr ?reg" by code_simp
  have h14: "\<not> truthy PNone \<or> map_of ?reg PNone = None" by simp
  have h15: "map_of ?mfs ''payload'' = Some (PObj ''Ack'')" by simp
  have h16: "truthy (PObj ''Ack'')" by simp
  have h17: "spec_asjson object_schema (PData orders_fields) = Inr orders_doc" by code_simp
  show ?thesis
    using fallback_correctness [OF h1 h2 h3 h4 h5 h6 h7 h8 h9 h10 h11 h12 h13 h14 h15 h16 h17]
      h1 h2 h5 h7 um h13 h17 by simp
qed

text \<open>
  The claim as stated fails: the serialized message has the field \<^verbatim>\<open>contentType\<close>, the
  compiled message has \<^verbatim>\<open>payload\<close> only.
\<close>

theorem fallback_correctness_counterexample:
  "getitem (u_spec_asjson unnamed_message) ''contentType'' = Inr (PStr ''application/json'') \<and>
   spec_asjson object_schema (PData orders_fields) = Inr orders_doc \<and>
   getpath orders_doc [''channels'', ''orders'', ''subscribe'', ''message''] =
     Inr (PDict [(''payload'', PDict [(''type'', PStr ''object'')])])"
  by code_simp

section \<open>Failure on an operation without message\<close>

text \<open>
  C4. A channel whose \<^verbatim>\<open>subscribe\<close> operation has \<^verbatim>\<open>message=None\<close>: the serialized
  operation has no \<^verbatim>\<open>message\<close> key and \<^verbatim>\<open>operation_dict['message']\<close> raises \<^verbatim>\<open>KeyError\<close>.
\<close>

theorem absent_message_raises:
  "spec_asjson tj absent_message_spec = Inl KeyError"
  by (simp add: absent_message_spec_def spec_asjson_def spec_messages_dict_def
      servers_loop_def channels_loop_def dict_values_def set_channel_operation_def
      set_operation_message_def store_field_def store_entry_def as_camel_case_def upper_char_def)

section \<open>Duplicate names\<close>

lemma wf_spec_channels:
  assumes "wf_spec (PData fs)" and "map_of fs ''channels'' = Some (PDict channels)"
  shows "distinct (field_keys fs)" and "distinct (map fst channels)"
    and "list_all wf_channel (map snd channels)"
  using assms by (auto split: option.splits)

lemma components_messages:
  assumes "map_of fs ''components'' = Some (PData cfs)"
    and "map_of cfs ''messages'' = Some (PDict (before @ e # after))"
  shows "spec_messages_dict (PData fs) = Inr (PDict (before @ e # after))"
  using assms by (simp add: spec_messages_dict_def)

lemma registry_built:
  assumes "\<forall>p. \<exists>s. tj p = Inr s" and "wf_spec (PData fs)"
    and "spec_messages_dict (PData fs) = Inr (PDict entries)"
  shows "\<exists>doc js reg. spec_asjson tj (PData fs) = Inr doc \<and>
           messages_loop tj entries (u_spec_asjson (PData fs)) [] = Inr (js, reg) \<and>
           json_spec_messages tj (PData fs) = Inr reg"
proof -
  from compile_succeeds [OF assms(1,2)] obtain doc where
    doc: "spec_asjson tj (PData fs) = Inr doc" by blast
  from spec_asjson_Inr [OF doc] obtain entries' js reg where
    "spec_messages_dict (PData fs) = Inr (PDict entries')" and
    "messages_loop tj entries' (u_spec_asjson (PData fs)) [] = Inr (js, reg)" by blast
  then have l: "messages_loop tj entries (u_spec_asjson (PData fs)) [] = Inr (js, reg)"
    using assms(3) by simp
  then have "json_spec_messages tj (PData fs) = Inr reg"
    using assms(3) by (simp add: json_spec_messages_def)
  then show ?thesis using doc l by blast
qed

text \<open>
  C3, as amended. For every (key, message) pair of \<^verbatim>\<open>components.messages\<close> whose payload is
  set and whose name is a non-empty string, the name is a key of \<^verbatim>\<open>json_spec_messages\<close>;
  it is mapped to this key when no later pair with a payload set declares the same name.
\<close>

theorem registry_completeness:
  assumes "\<forall>p. \<exists>s. tj p = Inr s" and "wf_spec (PData fs)"
    and "map_of fs ''components'' = Some (PData cfs)"
    and "map_of cfs ''messages'' = Some (PDict (before @ (key, PData mfs) # after))"
    and "map_of mfs ''payload'' = Some payload" and "truthy payload"
    and "map_of mfs ''name'' = Some (PStr N)" and "N \<noteq> []"
  shows "\<exists>reg. json_spec_messages tj (PData fs) = Inr reg \<and> map_of reg (PStr N) \<noteq> None \<and>
           ((\<forall>(k, m) \<in> set after. \<not> declares m (PStr N)) \<longrightarrow>
              map_of reg (PStr N) = Some key)"
proof -
  from registry_built [OF assms(1,2) components_messages [OF assms(3,4)]] obtain js reg where
    l: "messages_loop tj (before @ (key, PData mfs) # after) (u_spec_asjson (PData fs)) [] =
          Inr (js, reg)" and
    r: "json_spec_messages tj (PData fs) = Inr reg" by blast
  have d: "declares (PData mfs) (PStr N)"
    using assms(5-8) by (simp add: declares_def)
  show ?thesis using r registry_entry [OF l d] by blast
qed

theorem registry_completeness_witness:
  "wf_spec (PData duplicate_fields) \<and>
   map_of duplicate_fields ''components'' =
     Some (PData [(''messages'', PDict ([(''order-created'', order_created)] @
        (''order-created-v2'', order_created) # []))]) \<and>
   order_created = PData [(''name'', PStr ''OrderCreated''), (''payload'', PObj ''Order''),
     (''content_type'', PStr ''application/json'')] \<and>
   (\<exists>reg. json_spec_messages object_schema (PData duplicate_fields) = Inr reg \<and>
      map_of reg (PStr ''OrderCreated'') \<noteq> None \<and>
      ((\<forall>(k, m) \<in> set []. \<not> declares m (PStr ''OrderCreated'')) \<longrightarrow>
         map_of reg (PStr ''OrderCreated'') = Some ''order-created-v2''))"
proof -
  let ?mfs = "[(''name'', PStr ''OrderCreated''), (''payload'', PObj ''Order''),
     (''content_type'', PStr ''application/json'')]"
  let ?cfs = "[(''messages'', PDict ([(''order-created'', order_created)] @
        (''order-created-v2'', PData ?mfs) # []))]"
  have h1: "\<forall>p. \<exists>s. object_schema p = Inr s" by (simp add: object_schema_def)
  have h2: "wf_spec (PData duplicate_fields)" by code_simp
  have oc: "order_created = PData ?mfs" by code_simp
  have h3: "map_of duplicate_fields ''components'' = Some (PData ?cfs)" by code_simp
  have h4: "map_of ?cfs ''messages'' = Some (PDict ([(''order-created'', order_created)] @
        (''order-created-v2'', PData ?mfs) # []))" by simp
  have h5: "map_of ?mfs ''payload'' = Some (PObj ''Order'')" by simp
  have h6: "truthy (PObj ''Order'')" by simp
  have h7: "map_of ?mfs ''name'' = Some (PStr ''OrderCreated'')" by simp
  have h8: "''OrderCreated'' \<noteq> []" by simp
  show ?thesis
    using registry_completeness [OF h1 h2 h3 h4 h5 h6 h7 h8] h2 h3 oc by simp
qed

text \<open>
  The claim as stated fails: a components message with a name and no payload is not in
  \<^verbatim>\<open>json_spec_messages\<close>.
\<close>

theorem registry_completeness_counterexample:
  "spec_messages_dict (PData no_payload_fields) =
     Inr (PDict [(''order-created'', order_created_no_payload)]) \<and>
   getattr order_created_no_payload ''name'' = Inr (PStr ''OrderCreated'') \<and>
   json_spec_messages object_schema (PData no_payload_fields) = Inr []"
  by code_simp

text \<open>
  C10. When several components keys declare the same non-empty name, each with a payload
  set, a well-formed specification still compiles, and an operation whose message has
  that name refers to the key of the last of these entries.
\<close>

theorem last_writer_wins:
  assumes "\<forall>p. \<exists>s. tj p = Inr s" and "wf_spec (PData fs)"
    and "map_of fs ''components'' = Some (PData cfs)"
    and "map_of cfs ''messages'' = Some (PDict (before @ (key, m) # after))"
    and "declares m (PStr N)"
    and "\<forall>(k, m') \<in> set after. \<not> declares m' (PStr N)"
    and "map_of fs ''channels'' = Some (PDict channels)"
    and "(c, PData chfs) \<in> set channels"
    and "op = ''subscribe'' \<or> op = ''publish''"
    and "map_of chfs op = Some (PData ofs)"
    and "map_of ofs ''message'' = Some (PData mfs)"
    and "map_of mfs ''name'' = Some (PStr N)"
  shows "\<exists>doc reg. spec_asjson tj (PData fs) = Inr doc \<and>
           json_spec_messages tj (PData fs) = Inr reg \<and>
           map_of reg (PStr N) = Some key \<and>
           getpath doc [''channels'', c, op, ''message''] = Inr (ref_message key)"
proof -
  from registry_built [OF assms(1,2) components_messages [OF assms(3,4)]] obtain doc js reg where
    doc: "spec_asjson tj (PData fs) = Inr doc" and
    l: "messages_loop tj (before @ (key, m) # after) (u_spec_asjson (PData fs)) [] =
          Inr (js, reg)" and
    r: "json_spec_messages tj (PData fs) = Inr reg" by blast
  have key: "map_of reg (PStr N) = Some key"
    using registry_entry(2) [OF l assms(5,6)] .
  have N: "N \<noteq> []" using assms(5) by (auto simp: declares_def split: sum.splits)
  note wf = wf_spec_channels [OF assms(2,7)]
  have "wf_channel (PData chfs)" using wf(3) assms(8) by (force simp: list_all_iff)
  then have cd: "distinct (field_keys chfs)" by simp
  from compiled_operation [OF wf(1) assms(7) wf(2) assms(8) cd assms(9,10) r doc]
  obtain cs ch od where
    path: "getitem doc ''channels'' = Inr cs" "getitem cs c = Inr ch" "getitem ch op = Inr od" and
    run: "set_operation_message tj (u_spec_asjson (PData ofs)) (PData ofs) reg = Inr od"
    by blast
  have "resolvable_name (PData ofs) reg = Inr (Some key)"
    using resolvable_name_found [OF assms(11,12) N] key by simp
  from set_operation_message_ref [OF run this]
  have "getitem od ''message'' = Inr (ref_message key)" .
  from getpath_operation_message [OF path this] doc r key show ?thesis by blast
qed

theorem last_writer_wins_witness:
  "wf_spec (PData duplicate_fields) \<and>
   map_of duplicate_fields ''components'' =
     Some (PData [(''messages'', PDict ([(''order-created'', order_created)] @
        (''order-created-v2'', order_created) # []))]) \<and>
   declares order_created (PStr ''OrderCreated'') \<and>
   map_of duplicate_fields ''channels'' = Some (PDict [(''orders'', PData orders_channel_fields)]) \<and>
   map_of orders_channel_fields ''publish'' =
     Some (PData [(''operation_id'', PStr ''create''), (''message'', order_created)]) \<and>
   getattr order_created ''name'' = Inr (PStr ''OrderCreated'') \<and>
   (\<exists>doc reg. spec_asjson object_schema (PData duplicate_fields) = Inr doc \<and>
      json_spec_messages object_schema (PData duplicate_fields) = Inr reg \<and>
      map_of reg (PStr ''OrderCreated'') = Some ''order-created-v2'' \<and>
      getpath doc [''channels'', ''orders'', ''publish'', ''message''] =
        Inr (ref_message ''order-created-v2''))"
proof -
  let ?mfs = "[(''name'', PStr ''OrderCreated''), (''payload'', PObj ''Order''),
     (''content_type'', PStr ''application/json'')]"
  let ?cfs = "[(''messages'', PDict ([(''order-created'', order_created)] @
        (''order-created-v2'', order_created) # []))]"
  let ?ofs = "[(''operation_id'', PStr ''create''), (''message'', order_created)]"
  have h1: "\<forall>p. \<exists>s. object_schema p = Inr s" by (simp add: object_schema_def)
  have h2: "wf_spec (PData duplicate_fields)" by code_simp
  have h3: "map_of duplicate_fields ''components'' = Some (PData ?cfs)" by code_simp
  have h4: "map_of ?cfs ''messages'' = Some (PDict ([(''order-created'', order_created)] @
        (''order-created-v2'', order_created) # []))" by simp
  have h5: "declares order_created (PStr ''OrderCreated'')" by code_simp
  have h6: "\<forall>(k, m') \<in> set []. \<not> declares m' (PStr ''OrderCreated'')" by simp
  have h7: "map_of duplicate_fields ''channels'' =
     Some (PDict [(''orders'', PData orders_channel_fields)])" by code_simp
  have h8: "(''orders'', PData orders_channel_fields) \<in> set [(''orders'', PData orders_channel_fields)]"
    by simp
  have h9: "''publish'' = ''subscribe'' \<or> ''publish'' = ''publish''" by simp
  have h10: "map_of orders_channel_fields ''publish'' = Some (PData ?ofs)" by code_simp
  have h11: "map_of ?ofs ''message'' = Some (PData ?mfs)" by code_simp
  have h12: "map_of ?mfs ''name'' = Some (PStr ''OrderCreated'')" by simp
  have gn: "getattr order_created ''name'' = Inr (PStr ''OrderCreated'')" by code_simp
  show ?thesis
    using last_writer_wins [OF h1 h2 h3 h4 h5 h6 h7 h8 h9 h10 h11 h12] h2 h3 h5 h7 h10 gn
    by simp
qed




section \<open>Determinism\<close>

lemma inline_payload_mem:
  "inline_payload operation = Inr (Some payload) \<Longrightarrow> payload \<in> set (operation_payloads operation)"
  by (auto simp: inline_payload_def operation_message_def operation_payloads_def
      message_payloads_def split: if_splits sum.splits)

lemma set_operation_message_cong:
  assumes "\<forall>p \<in> set (operation_payloads operation). tj1 p = tj2 p"
  shows "set_operation_message tj1 od operation reg = set_operation_message tj2 od operation reg"
proof (cases "inline_payload operation")
  case (Inl e)
  show ?thesis unfolding set_operation_message_def Inl sum.case by (rule refl)
next
  case (Inr r)
  show ?thesis
  proof (cases r)
    case None
    show ?thesis
      unfolding set_operation_message_def Inr None sum.case option.case by (rule refl)
  next
    case (Some payload)
    then have eq: "tj1 payload = tj2 payload" using inline_payload_mem Inr assms by blast
    show ?thesis
      unfolding set_operation_message_def Inr Some sum.case option.case eq by (rule refl)
  qed
qed

lemma set_channel_operation_cong:
  assumes "\<forall>p \<in> set (channel_payloads channel). tj1 p = tj2 p"
    and "op = ''subscribe'' \<or> op = ''publish''"
  shows "set_channel_operation tj1 reg op d channel = set_channel_operation tj2 reg op d channel"
proof (cases "getattr channel op")
  case (Inl e)
  then show ?thesis by (simp add: set_channel_operation_def split: option.splits)
next
  case (Inr operation)
  have "set (operation_payloads operation) \<subseteq> set (channel_payloads channel)"
    using assms(2) Inr by (auto simp: channel_payloads_def)
  then have "\<forall>p \<in> set (operation_payloads operation). tj1 p = tj2 p" using assms(1) by blast
  from set_operation_message_cong [OF this] show ?thesis
    using Inr by (simp add: set_channel_operation_def split: option.splits)
qed

lemma set_channel_cong:
  assumes "\<forall>p \<in> set (channel_payloads channel). tj1 p = tj2 p"
  shows "set_channel tj1 reg cd channel = set_channel tj2 reg cd channel"
proof (cases cd)
  case (PDict d)
  have sub: "set_channel_operation tj1 reg ''subscribe'' x channel =
      set_channel_operation tj2 reg ''subscribe'' x channel" for x
    by (rule set_channel_operation_cong [OF assms]) simp
  have pub: "set_channel_operation tj1 reg ''publish'' x channel =
      set_channel_operation tj2 reg ''publish'' x channel" for x
    by (rule set_channel_operation_cong [OF assms]) simp
  show ?thesis using PDict by (simp add: sub pub split: sum.splits)
qed simp_all

lemma channels_zip_cong:
  "\<forall>p \<in> set (concat (map channel_payloads channels)). tj1 p = tj2 p \<Longrightarrow>
   channels_zip tj1 reg cds channels = channels_zip tj2 reg cds channels"
proof (induction channels arbitrary: cds)
  case Nil
  then show ?case by (cases cds) auto
next
  case (Cons channel channels)
  show ?case
  proof (cases cds)
    case Nil
    then show ?thesis by simp
  next
    case (Cons e rest)
    obtain k cd where e: "e = (k, cd)" by (cases e)
    have "\<forall>p \<in> set (channel_payloads channel). tj1 p = tj2 p"
      using Cons.prems by simp
    from set_channel_cong [OF this]
    have a: "set_channel tj1 reg cd channel = set_channel tj2 reg cd channel" .
    have "\<forall>p \<in> set (concat (map channel_payloads channels)). tj1 p = tj2 p"
      using Cons.prems by simp
    from Cons.IH [OF this]
    have b: "channels_zip tj1 reg rest channels = channels_zip tj2 reg rest channels" .
    show ?thesis using Cons e by (simp add: a b split: sum.splits)
  qed
qed

lemma messages_loop_cong:
  "\<forall>p \<in> set (concat (map message_payloads (map snd entries))). tj1 p = tj2 p \<Longrightarrow>
   messages_loop tj1 entries js reg = messages_loop tj2 entries js reg"
proof (induction entries arbitrary: js reg)
  case Nil
  then show ?case by simp
next
  case (Cons e entries)
  obtain k m where e: "e = (k, m)" by (cases e)
  have rest: "\<forall>p \<in> set (concat (map message_payloads (map snd entries))). tj1 p = tj2 p"
    using Cons.prems by simp
  note IH = Cons.IH [OF rest]
  show ?case
  proof (cases "getattr m ''payload''")
    case (Inl err)
    then show ?thesis using e by simp
  next
    case (Inr payload)
    then have "tj1 payload = tj2 payload"
      using Cons.prems e by (simp add: message_payloads_def)
    then show ?thesis using e Inr IH by (simp split: sum.splits)
  qed
qed

text \<open>
  C8 (determinism). A compilation is a function of the specification and of what
  \<^verbatim>\<open>type_as_jsonschema\<close> answers for the payload types of that specification: two runs on
  the same specification in which these answers are the same end the same way, with
  equal documents or with the same exception.
\<close>

theorem compile_deterministic:
  assumes "\<forall>p \<in> set (spec_payloads spec). tj1 p = tj2 p"
  shows "spec_asjson tj1 spec = spec_asjson tj2 spec"
proof (cases "spec_messages_dict spec")
  case (Inl e)
  then show ?thesis by (simp add: spec_asjson_def)
next
  case (Inr messages)
  show ?thesis
  proof (cases "items messages")
    case (Inl e)
    then show ?thesis using Inr by (simp add: spec_asjson_def)
  next
    case entries: (Inr entries)
    then have m: "messages = PDict entries" by (simp add: items_Inr)
    have "\<forall>p \<in> set (concat (map message_payloads (map snd entries))). tj1 p = tj2 p"
      using assms Inr m by (simp add: spec_payloads_def dict_values_def)
    from messages_loop_cong [OF this]
    have l: "messages_loop tj1 entries js reg = messages_loop tj2 entries js reg" for js reg .
    have c: "channels_loop tj1 reg js spec = channels_loop tj2 reg js spec" for reg js
    proof (cases "getattr spec ''channels''")
      case (Inl e)
      then show ?thesis by (simp add: channels_loop_def split: sum.splits)
    next
      case channels: (Inr channels)
      show ?thesis
      proof (cases "items channels")
        case (Inl e)
        then show ?thesis using channels by (simp add: channels_loop_def split: sum.splits)
      next
        case cs: (Inr cs)
        then have ch: "channels = PDict cs" by (simp add: items_Inr)
        have "\<forall>p \<in> set (concat (map channel_payloads (dict_values cs))). tj1 p = tj2 p"
          using assms channels ch by (simp add: spec_payloads_def)
        from channels_zip_cong [OF this]
        have "channels_zip tj1 reg cds (dict_values cs) = channels_zip tj2 reg cds (dict_values cs)"
          for cds .
        then show ?thesis
          using channels cs by (simp add: channels_loop_def split: sum.splits)
      qed
    qed
    show ?thesis using Inr entries by (simp add: spec_asjson_def l c split: sum.splits)
  qed
qed

theorem compile_deterministic_witness:
  "spec_payloads (PData orders_fields) = [PObj ''Order'', PObj ''Ack'', PObj ''Order''] \<and>
   object_schema (PObj ''Order'') = picky_schema (PObj ''Order'') \<and>
   object_schema (PObj ''Ack'') = picky_schema (PObj ''Ack'') \<and>
   object_schema (PObj ''Unsupported'') \<noteq> picky_schema (PObj ''Unsupported'') \<and>
   spec_asjson object_schema (PData orders_fields) = spec_asjson picky_schema (PData orders_fields) \<and>
   spec_asjson picky_schema (PData orders_fields) = Inr orders_doc"
proof -
  have ps: "spec_payloads (PData orders_fields) = [PObj ''Order'', PObj ''Ack'', PObj ''Order'']"
    by code_simp
  have o: "object_schema (PObj ''Order'') = picky_schema (PObj ''Order'')" by code_simp
  have a: "object_schema (PObj ''Ack'') = picky_schema (PObj ''Ack'')" by code_simp
  have h: "\<forall>p \<in> set (spec_payloads (PData orders_fields)). object_schema p = picky_schema p"
    unfolding ps using o a by simp
  have d: "object_schema (PObj ''Unsupported'') \<noteq> picky_schema (PObj ''Unsupported'')"
    by code_simp
  have r: "spec_asjson object_schema (PData orders_fields) = Inr orders_doc" by code_simp
  show ?thesis using compile_deterministic [OF h] ps o a d r by simp
qed

end
